theory Spec2Isabelle
  imports Main "HOL-Library.AList"
begin

section \<open>Hanja memorizer: the cache store and the dataset loader\<close>

text \<open>
  A shallow embedding of the functions of \<^verbatim>\<open>HanjaMemorizer.py\<close> that touch the
  cache directory (\<^verbatim>\<open>ensure_cache_dir\<close>, \<^verbatim>\<open>load_cache_index\<close>,
  \<^verbatim>\<open>save_cache_index\<close>, \<^verbatim>\<open>add_to_cache\<close>, \<^verbatim>\<open>load_from_cache\<close>), of the two
  URL helpers (\<^verbatim>\<open>extract_google_sheet_id\<close>, \<^verbatim>\<open>get_google_sheet_csv_url\<close>) and of
  \<^verbatim>\<open>HanjaMemorizer.parse_dataframe\<close>. The GUI is not modelled.
\<close>

subsection \<open>Python strings\<close>

text \<open>
  A Python \<^verbatim>\<open>str\<close> is a sequence of Unicode code points, and slicing and the
  regular expressions of the source count code points. A string is therefore a list of
  code points; \<open>ascii\<close> embeds an Isabelle string literal.
\<close>

type_synonym pystr = "nat list"

definition ascii :: "string \<Rightarrow> pystr" where
  "ascii s = map of_char s"

subsection \<open>JSON values and the Python operations on them\<close>

text \<open>
  What \<^verbatim>\<open>json.load\<close> returns: \<^verbatim>\<open>None\<close>, a bool, an int, a float (kept as its
  lexeme, the program never computes with one), a str, a list, or a dict. A dict is an
  association list in insertion order, looked up with \<open>map_of\<close>.
\<close>

datatype json =
    JNull
  | JBool bool
  | JInt int
  | JFloat pystr
  | JStr pystr
  | JArr "json list"
  | JObj "(pystr \<times> json) list"

datatype py_error =
    KeyError
  | TypeError
  | AttributeError
  | IndexError
  | FileNotFoundError
  | IsADirectoryError
  | JSONDecodeError

text \<open>\<^verbatim>\<open>v[key]\<close> with a string key: only a dict accepts it.\<close>

definition py_getitem :: "json \<Rightarrow> pystr \<Rightarrow> py_error + json" where
  "py_getitem v k =
     (case v of
        JObj kvs \<Rightarrow> (case map_of kvs k of None \<Rightarrow> Inl KeyError | Some x \<Rightarrow> Inr x)
      | _ \<Rightarrow> Inl TypeError)"

text \<open>\<^verbatim>\<open>v[key] = x\<close> with a string key. An existing key keeps its position.\<close>

definition py_setitem :: "json \<Rightarrow> pystr \<Rightarrow> json \<Rightarrow> py_error + json" where
  "py_setitem v k x =
     (case v of
        JObj kvs \<Rightarrow> Inr (JObj (AList.update k x kvs))
      | _ \<Rightarrow> Inl TypeError)"

text \<open>\<^verbatim>\<open>v.get(key)\<close>: only a dict has the method; a missing key gives \<^verbatim>\<open>None\<close>.\<close>

definition py_get :: "json \<Rightarrow> pystr \<Rightarrow> py_error + json" where
  "py_get v k =
     (case v of
        JObj kvs \<Rightarrow> Inr (case map_of kvs k of None \<Rightarrow> JNull | Some x \<Rightarrow> x)
      | _ \<Rightarrow> Inl AttributeError)"

text \<open>
  \<^verbatim>\<open>for f in v\<close>: a list gives its elements, a dict its keys, a str its characters;
  nothing else is iterable.
\<close>

definition py_iter :: "json \<Rightarrow> py_error + json list" where
  "py_iter v =
     (case v of
        JArr xs \<Rightarrow> Inr xs
      | JObj kvs \<Rightarrow> Inr (map (\<lambda>kv. JStr (fst kv)) kvs)
      | JStr s \<Rightarrow> Inr (map (\<lambda>c. JStr [c]) s)
      | _ \<Rightarrow> Inl TypeError)"

subsection \<open>The file system\<close>

text \<open>
  A path names at most one node, a directory or a regular file. The content of a file
  is seen through \<^verbatim>\<open>json.load\<close>: either the serialisation of a JSON value, or a
  text that \<^verbatim>\<open>json.load\<close> rejects (the empty text and every proper prefix of the
  serialisation of a dict are such texts). Path strings are the identity of nodes
  (no links, a case-sensitive file system), the directory part of a path is not
  resolved, and the operating system is taken to grant every request that the
  nodes allow: permissions, quotas and media errors are not part of the state.
\<close>

datatype contents = Unparsable | Serialized json

datatype node = Dir | File contents

type_synonym filesystem = "pystr \<rightharpoonup> node"

definition os_path_exists :: "filesystem \<Rightarrow> pystr \<Rightarrow> bool" where
  "os_path_exists fs p = (fs p \<noteq> None)"

definition os_makedirs :: "pystr \<Rightarrow> filesystem \<Rightarrow> filesystem" where
  "os_makedirs p fs = fs(p \<mapsto> Dir)"

text \<open>\<^verbatim>\<open>os.remove\<close> unlinks a regular file and refuses a directory.\<close>

definition os_remove :: "pystr \<Rightarrow> filesystem \<Rightarrow> py_error + filesystem" where
  "os_remove p fs =
     (case fs p of
        None \<Rightarrow> Inl FileNotFoundError
      | Some Dir \<Rightarrow> Inl IsADirectoryError
      | Some (File c) \<Rightarrow> Inr (fs(p := None)))"

text \<open>\<^verbatim>\<open>open(p, 'r')\<close> followed by reading the whole file.\<close>

definition open_read :: "pystr \<Rightarrow> filesystem \<Rightarrow> py_error + contents" where
  "open_read p fs =
     (case fs p of
        None \<Rightarrow> Inl FileNotFoundError
      | Some Dir \<Rightarrow> Inl IsADirectoryError
      | Some (File c) \<Rightarrow> Inr c)"

text \<open>
  \<^verbatim>\<open>open(p, 'w')\<close> creates the file or truncates it at once: until something is
  written and flushed the file holds the empty text.
\<close>

definition open_write :: "pystr \<Rightarrow> filesystem \<Rightarrow> py_error + filesystem" where
  "open_write p fs =
     (case fs p of
        Some Dir \<Rightarrow> Inl IsADirectoryError
      | _ \<Rightarrow> Inr (fs(p \<mapsto> File Unparsable)))"

text \<open>\<^verbatim>\<open>json.dump(v, f)\<close> run to its end and the file closed.\<close>

definition json_dump :: "json \<Rightarrow> pystr \<Rightarrow> filesystem \<Rightarrow> filesystem" where
  "json_dump v p fs = fs(p \<mapsto> File (Serialized v))"

definition json_load :: "contents \<Rightarrow> py_error + json" where
  "json_load c = (case c of Unparsable \<Rightarrow> Inl JSONDecodeError | Serialized v \<Rightarrow> Inr v)"

subsection \<open>Environment and paths\<close>

text \<open>
  What the program takes from its environment: the value of
  \<^verbatim>\<open>os.path.expanduser("~")\<close>, and the Unicode table that tells which code points
  beyond ASCII are alphanumeric.
\<close>

record environment =
  home :: pystr
  unicode_alnum :: "nat \<Rightarrow> bool"

text \<open>\<^verbatim>\<open>os.path.join\<close> with two arguments, as \<^verbatim>\<open>posixpath\<close> defines it.\<close>

definition os_path_join :: "pystr \<Rightarrow> pystr \<Rightarrow> pystr" where
  "os_path_join a b =
     (if b \<noteq> [] \<and> hd b = 47 then b
      else if a = [] \<or> last a = 47 then a @ b
      else a @ [47] @ b)"

definition CACHE_DIR :: "environment \<Rightarrow> pystr" where
  "CACHE_DIR env = os_path_join (home env) (ascii ''.hanja_memorizer'')"

definition CACHE_INDEX_FILE :: "environment \<Rightarrow> pystr" where
  "CACHE_INDEX_FILE env = os_path_join (CACHE_DIR env) (ascii ''cache_index.json'')"

subsection \<open>The clock\<close>

text \<open>
  \<^verbatim>\<open>datetime.now()\<close> is an input of \<^verbatim>\<open>add_to_cache\<close>.
  \<^verbatim>\<open>strftime("%Y%m%d_%H%M%S")\<close> prints the year in four digits and every other
  field in two.
\<close>

record datetime =
  year :: nat
  month :: nat
  day :: nat
  hour :: nat
  minute :: nat
  second :: nat

fun digits :: "nat \<Rightarrow> nat \<Rightarrow> pystr" where
  "digits 0 n = []"
| "digits (Suc k) n = digits k (n div 10) @ [48 + n mod 10]"

definition strftime :: "datetime \<Rightarrow> pystr" where
  "strftime dt =
     digits 4 (year dt) @ digits 2 (month dt) @ digits 2 (day dt) @ [95] @
     digits 2 (hour dt) @ digits 2 (minute dt) @ digits 2 (second dt)"

subsection \<open>The cache store\<close>

text \<open>The records that \<^verbatim>\<open>parse_dataframe\<close> builds and \<^verbatim>\<open>add_to_cache\<close> stores.\<close>

record hanja_entry =
  hanja :: pystr
  reading :: pystr
  meaning :: pystr

definition json_of_entry :: "hanja_entry \<Rightarrow> json" where
  "json_of_entry r =
     JObj [(ascii ''hanja'', JStr (hanja r)),
           (ascii ''reading'', JStr (reading r)),
           (ascii ''meaning'', JStr (meaning r))]"

definition json_of_data :: "hanja_entry list \<Rightarrow> json" where
  "json_of_data data = JArr (map json_of_entry data)"

definition ensure_cache_dir :: "environment \<Rightarrow> filesystem \<Rightarrow> filesystem" where
  "ensure_cache_dir env fs =
     (if \<not> os_path_exists fs (CACHE_DIR env) then os_makedirs (CACHE_DIR env) fs else fs)"

definition empty_index :: json where
  "empty_index = JObj [(ascii ''files'', JArr [])]"

text \<open>
  \<^verbatim>\<open>load_cache_index\<close>: whatever \<^verbatim>\<open>open\<close> or \<^verbatim>\<open>json.load\<close> raises is caught by
  the bare \<^verbatim>\<open>except\<close>. The result is the file system (the directory may have been
  created) and the index.
\<close>

definition load_cache_index :: "environment \<Rightarrow> filesystem \<Rightarrow> filesystem \<times> json" where
  "load_cache_index env fs =
     (let fs1 = ensure_cache_dir env fs in
      if os_path_exists fs1 (CACHE_INDEX_FILE env) then
        (case open_read (CACHE_INDEX_FILE env) fs1 of
           Inl e \<Rightarrow> (fs1, empty_index)
         | Inr c \<Rightarrow>
             (case json_load c of
                Inl e \<Rightarrow> (fs1, empty_index)
              | Inr v \<Rightarrow> (fs1, v)))
      else (fs1, empty_index))"

text \<open>
  \<^verbatim>\<open>save_cache_index\<close> as the sequence of its effects, so that an interruption after
  any of them is a state of the model: the directory is ensured, the index file is opened
  for writing (and so truncated), the index is dumped. An exception ends the sequence.
\<close>

definition save_cache_index_steps ::
  "environment \<Rightarrow> json \<Rightarrow> (filesystem \<Rightarrow> py_error + filesystem) list" where
  "save_cache_index_steps env index =
     [\<lambda>fs. Inr (ensure_cache_dir env fs),
      open_write (CACHE_INDEX_FILE env),
      \<lambda>fs. Inr (json_dump index (CACHE_INDEX_FILE env) fs)]"

fun run_steps ::
  "(filesystem \<Rightarrow> py_error + filesystem) list \<Rightarrow> filesystem \<Rightarrow> filesystem \<times> (py_error + unit)"
where
  "run_steps [] fs = (fs, Inr ())"
| "run_steps (step # steps) fs =
     (case step fs of
        Inl e \<Rightarrow> (fs, Inl e)
      | Inr fs' \<Rightarrow> run_steps steps fs')"

definition save_cache_index ::
  "environment \<Rightarrow> json \<Rightarrow> filesystem \<Rightarrow> filesystem \<times> (py_error + unit)" where
  "save_cache_index env index fs = run_steps (save_cache_index_steps env index) fs"

text \<open>
  The class \<^verbatim>\<open>\w\<close> of a \<^verbatim>\<open>str\<close> pattern: the ASCII letters and digits, the
  underscore, and the alphanumeric code points beyond ASCII.
\<close>

definition word_char :: "environment \<Rightarrow> nat \<Rightarrow> bool" where
  "word_char env c =
     (if c < 128 then
        (97 \<le> c \<and> c \<le> 122) \<or> (65 \<le> c \<and> c \<le> 90) \<or> (48 \<le> c \<and> c \<le> 57) \<or> c = 95
      else unicode_alnum env c)"

text \<open>\<^verbatim>\<open>re.sub(r'[^\w\-_]', '_', name)[:50]\<close>.\<close>

definition safe_name :: "environment \<Rightarrow> pystr \<Rightarrow> pystr" where
  "safe_name env name =
     take 50 (map (\<lambda>c. if word_char env c \<or> c = 45 \<or> c = 95 then c else 95) name)"

definition cache_filename :: "environment \<Rightarrow> datetime \<Rightarrow> pystr \<Rightarrow> pystr" where
  "cache_filename env now name = safe_name env name @ [95] @ strftime now @ ascii ''.json''"

definition cache_filepath :: "environment \<Rightarrow> datetime \<Rightarrow> pystr \<Rightarrow> pystr" where
  "cache_filepath env now name = os_path_join (CACHE_DIR env) (cache_filename env now name)"

text \<open>The dict that \<^verbatim>\<open>add_to_cache\<close> inserts at the front of the index.\<close>

definition new_entry ::
  "environment \<Rightarrow> datetime \<Rightarrow> pystr \<Rightarrow> pystr \<Rightarrow> pystr \<Rightarrow> hanja_entry list \<Rightarrow> json" where
  "new_entry env now name source_type source_path data =
     JObj [(ascii ''name'', JStr name),
           (ascii ''source_type'', JStr source_type),
           (ascii ''source_path'', JStr source_path),
           (ascii ''cache_file'', JStr (cache_filename env now name)),
           (ascii ''cached_at'', JStr (strftime now)),
           (ascii ''count'', JInt (int (length data)))]"

text \<open>
  \<^verbatim>\<open>[f for f in files if f.get("source_path") != source_path]\<close>: the first element
  that is not a dict raises.
\<close>

fun without_source :: "json list \<Rightarrow> pystr \<Rightarrow> py_error + json list" where
  "without_source [] source_path = Inr []"
| "without_source (f # files) source_path =
     (case py_get f (ascii ''source_path'') of
        Inl e \<Rightarrow> Inl e
      | Inr v \<Rightarrow>
          (case without_source files source_path of
             Inl e \<Rightarrow> Inl e
           | Inr kept \<Rightarrow> Inr (if v \<noteq> JStr source_path then f # kept else kept)))"

text \<open>The two slices of the cap: \<^verbatim>\<open>files[20:]\<close> and \<^verbatim>\<open>files[:20]\<close>.\<close>

definition old_files :: "json list \<Rightarrow> json list" where
  "old_files files = (if length files > 20 then drop 20 files else [])"

definition kept_files :: "json list \<Rightarrow> json list" where
  "kept_files files = (if length files > 20 then take 20 files else files)"

text \<open>
  The loop over \<^verbatim>\<open>old_files\<close>. An exception leaves the files removed so far
  removed.
\<close>

fun remove_old_files ::
  "environment \<Rightarrow> json list \<Rightarrow> filesystem \<Rightarrow> filesystem \<times> (py_error + unit)" where
  "remove_old_files env [] fs = (fs, Inr ())"
| "remove_old_files env (old # rest) fs =
     (case py_getitem old (ascii ''cache_file'') of
        Inl e \<Rightarrow> (fs, Inl e)
      | Inr (JStr cache_file) \<Rightarrow>
          (let old_path = os_path_join (CACHE_DIR env) cache_file in
           if os_path_exists fs old_path then
             (case os_remove old_path fs of
                Inl e \<Rightarrow> (fs, Inl e)
              | Inr fs' \<Rightarrow> remove_old_files env rest fs')
           else remove_old_files env rest fs)
      | Inr _ \<Rightarrow> (fs, Inl TypeError))"

text \<open>
  \<^verbatim>\<open>add_to_cache\<close>. The result is the file system as the call leaves it, also when
  it raises, and the exception or the returned path. The list \<^verbatim>\<open>index["files"]\<close> is
  followed as a value of its own (\<open>files2\<close> after the duplicates are removed,
  \<open>files3\<close> after the insertion) and stored into the dict once it is final: between
  the assignments of the source nothing reads the dict, and storing under a key that the
  dict already has cannot raise.
\<close>

definition add_to_cache ::
  "environment \<Rightarrow> datetime \<Rightarrow> pystr \<Rightarrow> pystr \<Rightarrow> pystr \<Rightarrow> hanja_entry list \<Rightarrow> filesystem
     \<Rightarrow> filesystem \<times> (py_error + pystr)" where
  "add_to_cache env now name source_type source_path data fs =
     (let fs1 = ensure_cache_dir env fs;
          path = cache_filepath env now name in
      case open_write path fs1 of
        Inl e \<Rightarrow> (fs1, Inl e)
      | Inr fs2 \<Rightarrow>
     (let fs3 = json_dump (json_of_data data) path fs2;
          (fs4, index) = load_cache_index env fs3 in
      case py_getitem index (ascii ''files'') of
        Inl e \<Rightarrow> (fs4, Inl e)
      | Inr files0 \<Rightarrow>
     (case py_iter files0 of
        Inl e \<Rightarrow> (fs4, Inl e)
      | Inr files1 \<Rightarrow>
     (case without_source files1 source_path of
        Inl e \<Rightarrow> (fs4, Inl e)
      | Inr files2 \<Rightarrow>
     (let files3 = new_entry env now name source_type source_path data # files2 in
      case remove_old_files env (old_files files3) fs4 of
        (fs5, Inl e) \<Rightarrow> (fs5, Inl e)
      | (fs5, Inr u) \<Rightarrow>
     (case py_setitem index (ascii ''files'') (JArr (kept_files files3)) of
        Inl e \<Rightarrow> (fs5, Inl e)
      | Inr index' \<Rightarrow>
     (case save_cache_index env index' fs5 of
        (fs6, Inl e) \<Rightarrow> (fs6, Inl e)
      | (fs6, Inr u) \<Rightarrow> (fs6, Inr path))))))))"

text \<open>\<^verbatim>\<open>load_from_cache\<close>: \<^verbatim>\<open>None\<close> when nothing exists at the path.\<close>

definition load_from_cache :: "environment \<Rightarrow> pystr \<Rightarrow> filesystem \<Rightarrow> py_error + json option" where
  "load_from_cache env filename fs =
     (let path = os_path_join (CACHE_DIR env) filename in
      if os_path_exists fs path then
        (case open_read path fs of
           Inl e \<Rightarrow> Inl e
         | Inr c \<Rightarrow> (case json_load c of Inl e \<Rightarrow> Inl e | Inr v \<Rightarrow> Inr (Some v)))
      else Inr None)"

subsection \<open>Reading the index and its entries\<close>

text \<open>
  The entries of the persisted index, as \<^verbatim>\<open>load_cache_dropdown\<close> reads them
  (\<^verbatim>\<open>load_cache_index()\<close>, then the list under \<^verbatim>\<open>"files"\<close>): the empty list
  when there is no such list.
\<close>

definition index_files :: "environment \<Rightarrow> filesystem \<Rightarrow> json list" where
  "index_files env fs =
     (case snd (load_cache_index env fs) of
        JObj kvs \<Rightarrow> (case map_of kvs (ascii ''files'') of Some (JArr xs) \<Rightarrow> xs | _ \<Rightarrow> [])
      | _ \<Rightarrow> [])"

text \<open>The source identifier of an entry, \<^verbatim>\<open>f.get("source_path")\<close>.\<close>

definition entry_source :: "json \<Rightarrow> json" where
  "entry_source f = (case py_get f (ascii ''source_path'') of Inl e \<Rightarrow> JNull | Inr v \<Rightarrow> v)"

text \<open>
  The path of the backing file of an entry,
  \<^verbatim>\<open>os.path.join(CACHE_DIR, old["cache_file"])\<close>, when the entry has one.
\<close>

definition entry_path :: "environment \<Rightarrow> json \<Rightarrow> pystr option" where
  "entry_path env f =
     (case py_getitem f (ascii ''cache_file'') of
        Inr (JStr cache_file) \<Rightarrow> Some (os_path_join (CACHE_DIR env) cache_file)
      | _ \<Rightarrow> None)"

text \<open>
  The list \<^verbatim>\<open>index["files"]\<close> of \<^verbatim>\<open>add_to_cache\<close> after the duplicates of the
  source are removed and the new entry is inserted, before the cap.
\<close>

definition files_after_insert ::
  "environment \<Rightarrow> datetime \<Rightarrow> pystr \<Rightarrow> pystr \<Rightarrow> pystr \<Rightarrow> hanja_entry list \<Rightarrow>
     json list \<Rightarrow> json list" where
  "files_after_insert env now name source_type source_path data files =
     new_entry env now name source_type source_path data #
     filter (\<lambda>f. entry_source f \<noteq> JStr source_path) files"

text \<open>
  The entries evicted by a call of \<^verbatim>\<open>add_to_cache\<close> on the file system \<open>fs\<close>: its
  \<^verbatim>\<open>old_files\<close>.
\<close>

definition evicted ::
  "environment \<Rightarrow> datetime \<Rightarrow> pystr \<Rightarrow> pystr \<Rightarrow> pystr \<Rightarrow> hanja_entry list \<Rightarrow>
     filesystem \<Rightarrow> json list" where
  "evicted env now name source_type source_path data fs =
     old_files (files_after_insert env now name source_type source_path data (index_files env fs))"


text \<open>
  A sequence of calls of \<^verbatim>\<open>add_to_cache\<close>, each with its clock reading and its
  arguments; the first exception ends it.
\<close>

record call =
  at :: datetime
  name_arg :: pystr
  source_type_arg :: pystr
  source_path_arg :: pystr
  data_arg :: "hanja_entry list"

fun add_all :: "environment \<Rightarrow> call list \<Rightarrow> filesystem \<Rightarrow> filesystem \<times> (py_error + unit)" where
  "add_all env [] fs = (fs, Inr ())"
| "add_all env (c # cs) fs =
     (case add_to_cache env (at c) (name_arg c) (source_type_arg c) (source_path_arg c)
             (data_arg c) fs of
        (fs', Inl e) \<Rightarrow> (fs', Inl e)
      | (fs', Inr path) \<Rightarrow> add_all env cs fs')"

subsection \<open>Google sheet URLs\<close>

text \<open>The class \<^verbatim>\<open>[a-zA-Z0-9-_]\<close>: ASCII letters, digits, hyphen (45), underscore (95).\<close>

definition sheet_id_char :: "nat \<Rightarrow> bool" where
  "sheet_id_char c =
     ((97 \<le> c \<and> c \<le> 122) \<or> (65 \<le> c \<and> c \<le> 90) \<or> (48 \<le> c \<and> c \<le> 57) \<or> c = 45 \<or> c = 95)"

text \<open>
  Both patterns are a literal followed by the group \<^verbatim>\<open>([a-zA-Z0-9-_]+)\<close>. A match
  at the start of \<open>s\<close>: the literal, then the longest run of class characters, which
  must not be empty; the result is group 1.
\<close>

definition match_here :: "pystr \<Rightarrow> pystr \<Rightarrow> pystr option" where
  "match_here lit s =
     (if take (length lit) s = lit then
        (let g = takeWhile sheet_id_char (drop (length lit) s) in
         if g = [] then None else Some g)
      else None)"

text \<open>\<^verbatim>\<open>re.search\<close>: the match at the leftmost position that has one.\<close>

fun re_search :: "pystr \<Rightarrow> pystr \<Rightarrow> pystr option" where
  "re_search lit [] = match_here lit []"
| "re_search lit (c # s) =
     (case match_here lit (c # s) of
        Some g \<Rightarrow> Some g
      | None \<Rightarrow> re_search lit s)"

definition patterns :: "pystr list" where
  "patterns = [ascii ''/spreadsheets/d/'', ascii ''id='']"

fun first_match :: "pystr list \<Rightarrow> pystr \<Rightarrow> pystr option" where
  "first_match [] url = None"
| "first_match (pattern # rest) url =
     (case re_search pattern url of
        Some g \<Rightarrow> Some g
      | None \<Rightarrow> first_match rest url)"

definition extract_google_sheet_id :: "pystr \<Rightarrow> pystr option" where
  "extract_google_sheet_id url = first_match patterns url"

definition get_google_sheet_csv_url :: "pystr \<Rightarrow> pystr \<Rightarrow> pystr option" where
  "get_google_sheet_csv_url sheet_url gid =
     (case extract_google_sheet_id sheet_url of
        None \<Rightarrow> None
      | Some sheet_id \<Rightarrow>
          if sheet_id \<noteq> [] then
            Some (ascii ''https://docs.google.com/spreadsheets/d/'' @ sheet_id @
                  ascii ''/export?format=csv&gid='' @ gid)
          else None)"

subsection \<open>Parsing a data frame\<close>

text \<open>
  A cell is missing (\<^verbatim>\<open>pd.notna\<close> is false) or holds a scalar, given by its
  \<^verbatim>\<open>str()\<close>. A data frame is the list of its rows.
\<close>

datatype cell = Missing | Cell pystr

text \<open>\<^verbatim>\<open>row.iloc[i]\<close> with \<open>i \<ge> 0\<close>.\<close>

definition iloc :: "cell list \<Rightarrow> nat \<Rightarrow> py_error + cell" where
  "iloc row i = (if i < length row then Inr (row ! i) else Inl IndexError)"

text \<open>\<^verbatim>\<open>str(x) if pd.notna(x) else ""\<close>.\<close>

definition cell_str :: "cell \<Rightarrow> pystr" where
  "cell_str x = (case x of Missing \<Rightarrow> [] | Cell s \<Rightarrow> s)"

text \<open>The header label \<^verbatim>\<open>"\<close>U+D55C U+C790\<^verbatim>\<open>"\<close> that marks a header row.\<close>

definition header_label :: pystr where
  "header_label = [54620, 51088]"

text \<open>
  The body of the \<^verbatim>\<open>try\<close>: the exception, or the record to append, or nothing to
  append.
\<close>

definition extract_row :: "cell list \<Rightarrow> py_error + hanja_entry option" where
  "extract_row row =
     (case iloc row 1 of
        Inl e \<Rightarrow> Inl e
      | Inr c1 \<Rightarrow>
     (case iloc row 2 of
        Inl e \<Rightarrow> Inl e
      | Inr c2 \<Rightarrow>
     (case iloc row 3 of
        Inl e \<Rightarrow> Inl e
      | Inr c3 \<Rightarrow>
          (let h = cell_str c1; r = cell_str c2; m = cell_str c3 in
           if h \<noteq> [] \<and> h \<noteq> ascii ''nan'' \<and> h \<noteq> header_label
           then Inr (Some \<lparr>hanja = h, reading = r, meaning = m\<rparr>)
           else Inr None))))"

text \<open>The loop over the rows, with the list \<^verbatim>\<open>data\<close> built so far.\<close>

fun parse_rows :: "cell list list \<Rightarrow> hanja_entry list \<Rightarrow> hanja_entry list" where
  "parse_rows [] data = data"
| "parse_rows (row # rows) data =
     (case extract_row row of
        Inl e \<Rightarrow> parse_rows rows data
      | Inr None \<Rightarrow> parse_rows rows data
      | Inr (Some r) \<Rightarrow> parse_rows rows (data @ [r]))"

definition parse_dataframe :: "cell list list \<Rightarrow> hanja_entry list" where
  "parse_dataframe df = parse_rows df []"

subsection \<open>Rows kept by the parser\<close>

text \<open>
  The rows that reach \<^verbatim>\<open>data.append\<close>: the three cells exist, and the text of the
  second cell is not empty, not \<^verbatim>\<open>"nan"\<close> and not the header label. \<open>record_of\<close>
  is the record appended for such a row.
\<close>

definition included :: "cell list \<Rightarrow> bool" where
  "included row \<longleftrightarrow>
     4 \<le> length row \<and> cell_str (row ! 1) \<noteq> [] \<and> cell_str (row ! 1) \<noteq> ascii ''nan'' \<and>
     cell_str (row ! 1) \<noteq> header_label"

definition record_of :: "cell list \<Rightarrow> hanja_entry" where
  "record_of row =
     \<lparr>hanja = cell_str (row ! 1), reading = cell_str (row ! 2), meaning = cell_str (row ! 3)\<rparr>"

subsection \<open>Occurrences of a pattern\<close>

text \<open>
  The pattern \<open>lit\<close>\<^verbatim>\<open>([a-zA-Z0-9-_]+)\<close> matches somewhere in the URL: the literal
  occurs, followed by at least one character of the class.
\<close>

definition pattern_occurs :: "pystr \<Rightarrow> pystr \<Rightarrow> bool" where
  "pattern_occurs lit url \<longleftrightarrow>
     (\<exists>pre c post. url = pre @ lit @ c # post \<and> sheet_id_char c)"

subsection \<open>An interrupted save\<close>

text \<open>
  \<^verbatim>\<open>save_cache_index\<close> stopped after the second of its three effects: the index
  file is open for writing and nothing of the dump has reached it.
\<close>

definition interrupted_save ::
  "environment \<Rightarrow> json \<Rightarrow> filesystem \<Rightarrow> filesystem \<times> (py_error + unit)" where
  "interrupted_save env index fs = run_steps (take 2 (save_cache_index_steps env index)) fs"

subsection \<open>Well-formed cache directories\<close>

text \<open>
  The states that the program itself produces: the only directory is the cache
  directory, the index (as \<^verbatim>\<open>load_cache_index\<close> returns it) is a dict with a list
  under \<^verbatim>\<open>"files"\<close>, and every entry of that list is a dict whose backing file is
  neither the cache directory nor the index file. The empty file system is such a
  state and \<^verbatim>\<open>add_to_cache\<close> keeps the property (shown below).
\<close>

definition well_formed :: "environment \<Rightarrow> filesystem \<Rightarrow> bool" where
  "well_formed env fs \<longleftrightarrow>
     (\<forall>p. fs p = Some Dir \<longrightarrow> p = CACHE_DIR env) \<and>
     (\<exists>kvs xs. snd (load_cache_index env fs) = JObj kvs \<and>
        map_of kvs (ascii ''files'') = Some (JArr xs)) \<and>
     (\<forall>f\<in>set (index_files env fs).
        (\<exists>kvs. f = JObj kvs) \<and>
        (\<exists>p. entry_path env f = Some p \<and> p \<noteq> CACHE_DIR env \<and> p \<noteq> CACHE_INDEX_FILE env))"

text \<open>The entry that a call inserts.\<close>

definition entry_of :: "environment \<Rightarrow> call \<Rightarrow> json" where
  "entry_of env c =
     new_entry env (at c) (name_arg c) (source_type_arg c) (source_path_arg c) (data_arg c)"

subsection \<open>Example inputs\<close>

text \<open>
  A home directory, two clock readings a minute apart, two data sets, and two families
  of calls with pairwise different sources: \<open>example_call\<close> with different names,
  \<open>same_name_call\<close> for files of the same name in different directories, loaded
  within the same second. The three file systems are what these calls leave when they
  start from the empty file system.
\<close>

definition env0 :: environment where
  "env0 = \<lparr>home = ascii ''/home/u'', unicode_alnum = (\<lambda>c. False)\<rparr>"

definition now0 :: datetime where
  "now0 = \<lparr>year = 2024, month = 1, day = 2, hour = 3, minute = 4, second = 5\<rparr>"

definition now1 :: datetime where
  "now1 = \<lparr>year = 2024, month = 1, day = 2, hour = 3, minute = 5, second = 0\<rparr>"

definition data0 :: "hanja_entry list" where
  "data0 = [\<lparr>hanja = [28450], reading = ascii ''han'', meaning = ascii ''Chinese''\<rparr>]"

definition data1 :: "hanja_entry list" where
  "data1 = []"

definition example_call :: "nat \<Rightarrow> call" where
  "example_call i =
     \<lparr>at = now0, name_arg = ascii ''set'' @ [65 + i], source_type_arg = ascii ''local'',
      source_path_arg = ascii ''/data/set'' @ [65 + i] @ ascii ''.xlsx'',
      data_arg = data0\<rparr>"

definition same_name_call :: "nat \<Rightarrow> call" where
  "same_name_call i =
     \<lparr>at = now0, name_arg = ascii ''words'', source_type_arg = ascii ''local'',
      source_path_arg = ascii ''/data/'' @ [65 + i] @ ascii ''/words.xlsx'',
      data_arg = data0\<rparr>"

definition fs_full :: filesystem where
  "fs_full = fst (add_all env0 (map example_call [0..<20]) Map.empty)"

definition fs_same :: filesystem where
  "fs_same = fst (add_all env0 (map same_name_call [0..<20]) Map.empty)"

definition fs_one :: filesystem where
  "fs_one = fst (add_all env0 [same_name_call 0] Map.empty)"

text \<open>A call of \<^verbatim>\<open>add_to_cache\<close> in the example environment, and two reloads of the
  source of \<open>same_name_call 0\<close> with new data: a minute later, and within the same
  second.\<close>

definition call_on :: "call \<Rightarrow> filesystem \<Rightarrow> filesystem \<times> (py_error + pystr)" where
  "call_on c fs =
     add_to_cache env0 (at c) (name_arg c) (source_type_arg c) (source_path_arg c) (data_arg c) fs"

definition reload_later :: call where
  "reload_later = (same_name_call 0)\<lparr>at := now1, data_arg := data1\<rparr>"

definition reload_at_once :: call where
  "reload_at_once = (same_name_call 0)\<lparr>data_arg := data1\<rparr>"

text \<open>A cache directory whose index holds one entry, and an index to save over it.\<close>

definition old_index :: json where
  "old_index = JObj [(ascii ''files'', JArr [entry_of env0 (same_name_call 0)])]"

definition new_index :: json where
  "new_index = JObj [(ascii ''files'', JArr [entry_of env0 reload_later])]"

definition fs_saved :: filesystem where
  "fs_saved = [CACHE_DIR env0 \<mapsto> Dir, CACHE_INDEX_FILE env0 \<mapsto> File (Serialized old_index)]"



section \<open>Properties\<close>

subsection \<open>Strings and paths\<close>

lemma ascii_eq_iff [simp]: "ascii a = ascii b \<longleftrightarrow> a = b"
  by (simp add: ascii_def inj_map_eq_map inj_of_char)

lemma length_ascii [simp]: "length (ascii s) = length s"
  by (simp add: ascii_def)

lemma ascii_Nil [simp]: "ascii [] = []"
  by (simp add: ascii_def)

lemma ascii_Cons: "ascii (c # s) = of_char c # ascii s"
  by (simp add: ascii_def)

lemma length_digits [simp]: "length (digits k n) = k"
  by (induction k arbitrary: n) auto

lemma length_strftime [simp]: "length (strftime dt) = 15"
  by (simp add: strftime_def)

lemma CACHE_DIR_nonempty [simp]: "CACHE_DIR env \<noteq> []"
  by (simp add: CACHE_DIR_def os_path_join_def ascii_Cons)

lemma last_CACHE_DIR [simp]: "last (CACHE_DIR env) = 114"
  by (simp add: CACHE_DIR_def os_path_join_def ascii_Cons)

lemma length_cache_filename: "length (cache_filename env now name) \<ge> 21"
  by (simp add: cache_filename_def)

lemma hd_cache_filename: "hd (cache_filename env now name) \<noteq> 47"
  by (cases name) (auto simp add: cache_filename_def safe_name_def word_char_def)

lemma cache_filename_nonempty [simp]: "cache_filename env now name \<noteq> []"
  using length_cache_filename [of env now name] by auto

lemma cache_filepath_eq:
  "cache_filepath env now name = CACHE_DIR env @ [47] @ cache_filename env now name"
  by (simp add: cache_filepath_def os_path_join_def hd_cache_filename)

lemma CACHE_INDEX_FILE_eq:
  "CACHE_INDEX_FILE env = CACHE_DIR env @ [47] @ ascii ''cache_index.json''"
  by (simp add: CACHE_INDEX_FILE_def os_path_join_def ascii_Cons)

lemma cache_filepath_not_index [simp]:
  "cache_filepath env now name \<noteq> CACHE_INDEX_FILE env"
  "CACHE_INDEX_FILE env \<noteq> cache_filepath env now name"
  using length_cache_filename [of env now name]
  by (auto simp add: cache_filepath_eq CACHE_INDEX_FILE_eq dest!: arg_cong [where f = length])

lemma CACHE_DIR_not_file [simp]:
  "CACHE_DIR env \<noteq> CACHE_INDEX_FILE env"
  "CACHE_INDEX_FILE env \<noteq> CACHE_DIR env"
  "CACHE_DIR env \<noteq> cache_filepath env now name"
  "cache_filepath env now name \<noteq> CACHE_DIR env"
  by (auto simp add: cache_filepath_eq CACHE_INDEX_FILE_eq dest!: arg_cong [where f = length])

subsection \<open>Effects of the cache operations on the file system\<close>

lemma ensure_cache_dir_apply:
  "ensure_cache_dir env fs p = (if p = CACHE_DIR env \<and> fs p = None then Some Dir else fs p)"
  by (auto simp add: ensure_cache_dir_def os_path_exists_def os_makedirs_def)

lemma fst_load_cache_index [simp]: "fst (load_cache_index env fs) = ensure_cache_dir env fs"
  by (simp add: load_cache_index_def Let_def split: sum.splits)

lemma snd_load_cache_index:
  "snd (load_cache_index env fs) =
     (case fs (CACHE_INDEX_FILE env) of
        Some (File (Serialized v)) \<Rightarrow> v
      | _ \<Rightarrow> empty_index)"
  by (simp add: load_cache_index_def Let_def os_path_exists_def ensure_cache_dir_apply
      open_read_def json_load_def split: option.splits node.splits contents.splits)

lemma open_write_Inr: "open_write p fs = Inr fs' \<Longrightarrow> fs' = fs(p \<mapsto> File Unparsable)"
  by (auto simp add: open_write_def split: option.splits node.splits)

lemma run_save_cache_index:
  "save_cache_index env index fs =
     (case open_write (CACHE_INDEX_FILE env) (ensure_cache_dir env fs) of
        Inl e \<Rightarrow> (ensure_cache_dir env fs, Inl e)
      | Inr fs' \<Rightarrow> (json_dump index (CACHE_INDEX_FILE env) fs', Inr ()))"
  by (simp add: save_cache_index_def save_cache_index_steps_def split: sum.splits)

lemma save_cache_index_apply:
  "save_cache_index env index fs = (fs', r) \<Longrightarrow> p \<noteq> CACHE_INDEX_FILE env \<Longrightarrow>
     fs' p = ensure_cache_dir env fs p"
  by (auto simp add: run_save_cache_index json_dump_def split: sum.splits dest!: open_write_Inr)

lemma save_cache_index_index:
  "save_cache_index env index fs = (fs', Inr u) \<Longrightarrow>
     fs' (CACHE_INDEX_FILE env) = Some (File (Serialized index))"
  by (auto simp add: run_save_cache_index json_dump_def split: sum.splits)

lemma without_source_Inr:
  "without_source files sp = Inr kept \<Longrightarrow> kept = filter (\<lambda>f. entry_source f \<noteq> JStr sp) files"
proof (induction files arbitrary: kept)
  case Nil
  then show ?case by simp
next
  case (Cons f files)
  from Cons.prems obtain v kept0 where
    v: "py_get f (ascii ''source_path'') = Inr v" and
    kept0: "without_source files sp = Inr kept0" and
    kept: "kept = (if v \<noteq> JStr sp then f # kept0 else kept0)"
    by (auto split: sum.splits)
  have "entry_source f = v"
    using v by (simp add: entry_source_def)
  with Cons.IH [OF kept0] kept show ?case
    by simp
qed

lemma remove_old_files_apply:
  "remove_old_files env olds fs = (fs', r) \<Longrightarrow>
     fs' p = fs p \<or> (fs' p = None \<and> Some p \<in> entry_path env ` set olds)"
proof (induction olds arbitrary: fs)
  case Nil
  then show ?case by simp
next
  case (Cons old rest)
  show ?case
  proof (cases "py_getitem old (ascii ''cache_file'')")
    case (Inl e)
    with Cons.prems show ?thesis by simp
  next
    case (Inr v)
    show ?thesis
    proof (cases v)
      case (JStr cf)
      let ?q = "os_path_join (CACHE_DIR env) cf"
      have path: "entry_path env old = Some ?q"
        using Inr JStr by (simp add: entry_path_def)
      show ?thesis
      proof (cases "os_path_exists fs ?q")
        case False
        with Cons.prems Inr JStr have "remove_old_files env rest fs = (fs', r)"
          by simp
        from Cons.IH [OF this] show ?thesis by auto
      next
        case True
        show ?thesis
        proof (cases "os_remove ?q fs")
          case (Inl e)
          with Cons.prems Inr JStr True show ?thesis by simp
        next
          case rm: (Inr fs1)
          then have fs1: "fs1 = fs(?q := None)"
            by (auto simp add: os_remove_def split: option.splits node.splits)
          from Cons.prems Inr JStr True rm have "remove_old_files env rest fs1 = (fs', r)"
            by simp
          from Cons.IH [OF this] show ?thesis
            using path fs1 by (cases "p = ?q") (auto simp add: image_iff)
        qed
      qed
    qed (use Cons.prems Inr in auto)
  qed
qed

lemma remove_old_files_Inr:
  "remove_old_files env olds fs = (fs', Inr u) \<Longrightarrow> old \<in> set olds \<Longrightarrow>
     \<exists>p. entry_path env old = Some p \<and> fs' p = None"
proof (induction olds arbitrary: fs)
  case Nil
  then show ?case by simp
next
  case (Cons o1 rest)
  from Cons.prems(1) obtain cf where cf: "py_getitem o1 (ascii ''cache_file'') = Inr (JStr cf)"
    by (auto split: sum.splits json.splits)
  let ?q = "os_path_join (CACHE_DIR env) cf"
  have path: "entry_path env o1 = Some ?q"
    using cf by (simp add: entry_path_def)
  obtain fs1 where fs1: "remove_old_files env rest fs1 = (fs', Inr u)" and gone: "fs1 ?q = None"
    using Cons.prems(1) cf
    by (auto simp add: os_path_exists_def os_remove_def Let_def
        split: if_splits sum.splits option.splits node.splits)
  show ?case
  proof (cases "old = o1")
    case True
    from remove_old_files_apply [OF fs1, of ?q] gone have "fs' ?q = None"
      by auto
    with path True show ?thesis by simp
  next
    case False
    with Cons.prems(2) have "old \<in> set rest" by simp
    from Cons.IH [OF fs1 this] show ?thesis .
  qed
qed

lemma iterated_files:
  assumes "py_getitem index (ascii ''files'') = Inr files0"
    and "py_iter files0 = Inr files1"
    and "without_source files1 sp = Inr files2"
  shows "files1 =
     (case index of
        JObj kvs \<Rightarrow> (case map_of kvs (ascii ''files'') of Some (JArr xs) \<Rightarrow> xs | _ \<Rightarrow> [])
      | _ \<Rightarrow> [])"
proof -
  from assms(1) obtain kvs where index: "index = JObj kvs" and files0: "map_of kvs (ascii ''files'') = Some files0"
    by (auto simp add: py_getitem_def split: json.splits option.splits)
  have no_str: "files1 = []" if "files1 = map f xs" "\<And>x. \<exists>s. f x = JStr s" for f and xs :: "'a list"
  proof (cases xs)
    case Nil
    with that show ?thesis by simp
  next
    case (Cons x xs')
    from that(2) [of x] obtain s where "f x = JStr s" ..
    with assms(3) that(1) Cons show ?thesis
      by (simp add: py_get_def)
  qed
  show ?thesis
  proof (cases files0)
    case (JArr xs)
    with assms(2) index files0 show ?thesis by (simp add: py_iter_def)
  next
    case (JObj kvs')
    with assms(2) have "files1 = map (\<lambda>kv. JStr (fst kv)) kvs'" by (simp add: py_iter_def)
    then have "files1 = []" by (rule no_str) blast
    with index files0 JObj show ?thesis by simp
  next
    case (JStr s)
    with assms(2) have "files1 = map (\<lambda>c. JStr [c]) s" by (simp add: py_iter_def)
    then have "files1 = []" by (rule no_str) blast
    with index files0 JStr show ?thesis by simp
  qed (use assms(2) in \<open>simp_all add: py_iter_def\<close>)
qed

lemma load_cache_index_after_write:
  "load_cache_index env ((ensure_cache_dir env fs)(cache_filepath env now name \<mapsto> nd)) =
     ((ensure_cache_dir env fs)(cache_filepath env now name \<mapsto> nd), snd (load_cache_index env fs))"
proof -
  let ?fs3 = "(ensure_cache_dir env fs)(cache_filepath env now name \<mapsto> nd)"
  have "ensure_cache_dir env ?fs3 = ?fs3"
    by (rule ext) (auto simp add: ensure_cache_dir_apply)
  moreover have "snd (load_cache_index env ?fs3) = snd (load_cache_index env fs)"
    by (simp add: snd_load_cache_index ensure_cache_dir_apply)
  ultimately show ?thesis
    by (metis fst_load_cache_index prod.collapse)
qed

lemma add_to_cache_cases:
  assumes run: "add_to_cache env now name st sp data fs = (fs', r)"
  obtains
    (early) e where
      "r = Inl e"
      "fs' = ensure_cache_dir env fs \<or>
       fs' = (ensure_cache_dir env fs)
               (cache_filepath env now name \<mapsto> File (Serialized (json_of_data data)))"
  | (removal) e where
      "r = Inl e"
      "remove_old_files env
         (old_files (files_after_insert env now name st sp data (index_files env fs)))
         ((ensure_cache_dir env fs)
            (cache_filepath env now name \<mapsto> File (Serialized (json_of_data data)))) = (fs', Inl e)"
  | (saving) fs5 index' u rr where
      "remove_old_files env
         (old_files (files_after_insert env now name st sp data (index_files env fs)))
         ((ensure_cache_dir env fs)
            (cache_filepath env now name \<mapsto> File (Serialized (json_of_data data)))) = (fs5, Inr u)"
      "py_setitem (snd (load_cache_index env fs)) (ascii ''files'')
         (JArr (kept_files (files_after_insert env now name st sp data (index_files env fs)))) = Inr index'"
      "save_cache_index env index' fs5 = (fs', rr)"
      "r = (case rr of Inl e \<Rightarrow> Inl e | Inr u \<Rightarrow> Inr (cache_filepath env now name))"
proof -
  let ?fs1 = "ensure_cache_dir env fs"
  let ?path = "cache_filepath env now name"
  let ?base = "?fs1(?path \<mapsto> File (Serialized (json_of_data data)))"
  let ?index = "snd (load_cache_index env fs)"
  let ?files3 = "files_after_insert env now name st sp data (index_files env fs)"
  show thesis
  proof (cases "open_write ?path ?fs1")
    case (Inl e)
    with run have "r = Inl e" "fs' = ?fs1"
      by (simp_all add: add_to_cache_def)
    then show thesis using early by blast
  next
    case (Inr fs2)
    then have "fs2 = ?fs1(?path \<mapsto> File Unparsable)"
      by (rule open_write_Inr)
    then have fs3: "json_dump (json_of_data data) ?path fs2 = ?base"
      by (simp add: json_dump_def)
    have load: "load_cache_index env ?base = (?base, ?index)"
      by (rule load_cache_index_after_write)
    note start = Inr fs3 load
    show thesis
    proof (cases "py_getitem ?index (ascii ''files'')")
      case (Inl e)
      with run start have "r = Inl e" "fs' = ?base"
        by (simp_all add: add_to_cache_def)
      then show thesis using early by blast
    next
      case files0: (Inr files0)
      show thesis
      proof (cases "py_iter files0")
        case (Inl e)
        with run start files0 have "r = Inl e" "fs' = ?base"
          by (simp_all add: add_to_cache_def)
        then show thesis using early by blast
      next
        case files1: (Inr files1)
        show thesis
        proof (cases "without_source files1 sp")
          case (Inl e)
          with run start files0 files1 have "r = Inl e" "fs' = ?base"
            by (simp_all add: add_to_cache_def)
          then show thesis using early by blast
        next
          case files2: (Inr files2)
          have "files1 = index_files env fs"
            using iterated_files [OF files0 files1 files2] by (simp add: index_files_def)
          with without_source_Inr [OF files2]
          have files3: "new_entry env now name st sp data # files2 = ?files3"
            by (simp add: files_after_insert_def)
          obtain fs5 r5 where rm: "remove_old_files env (old_files ?files3) ?base = (fs5, r5)"
            by (cases "remove_old_files env (old_files ?files3) ?base")
          from files0 obtain index' where
            set: "py_setitem ?index (ascii ''files'') (JArr (kept_files ?files3)) = Inr index'"
            by (auto simp add: py_getitem_def py_setitem_def split: json.splits)
          show thesis
          proof (cases r5)
            case (Inl e)
            with run start files0 files1 files2 files3 rm have "r = Inl e" "fs' = fs5"
              by (simp_all add: add_to_cache_def)
            with rm Inl show thesis using removal by blast
          next
            case (Inr u)
            obtain fs6 rr where save: "save_cache_index env index' fs5 = (fs6, rr)"
              by (cases "save_cache_index env index' fs5")
            with run start files0 files1 files2 files3 rm Inr set
            have "fs' = fs6" "r = (case rr of Inl e \<Rightarrow> Inl e | Inr u \<Rightarrow> Inr ?path)"
              by (simp_all add: add_to_cache_def split: sum.splits)
            with rm Inr set save show thesis using saving by blast
          qed
        qed
      qed
    qed
  qed
qed

subsection \<open>The rows that the parser keeps\<close>

lemma extract_row_eq:
  "extract_row row =
     (if length row < 4 then Inl IndexError
      else if included row then Inr (Some (record_of row)) else Inr None)"
  by (auto simp add: extract_row_def iloc_def included_def record_of_def Let_def)

lemma parse_rows_eq:
  "parse_rows rows data = data @ map record_of (filter included rows)"
proof (induction rows arbitrary: data)
  case Nil
  then show ?case by simp
next
  case (Cons row rows)
  then show ?case
    by (auto simp add: extract_row_eq included_def)
qed

lemma parse_dataframe_eq: "parse_dataframe df = map record_of (filter included df)"
  by (simp add: parse_dataframe_def parse_rows_eq)

subsection \<open>What a call of add-to-cache leaves\<close>

text \<open>
  From the case analysis of a call: the index after a call that returns, the files of the
  evicted entries, and the paths that a call of any outcome can delete or change.
\<close>

lemma add_to_cache_Inr:
  assumes "add_to_cache env now name st sp data fs = (fs', Inr ref)"
  obtains fs5 index' u where
    "ref = cache_filepath env now name"
    "remove_old_files env (evicted env now name st sp data fs)
       ((ensure_cache_dir env fs)
          (cache_filepath env now name \<mapsto> File (Serialized (json_of_data data)))) = (fs5, Inr u)"
    "py_setitem (snd (load_cache_index env fs)) (ascii ''files'')
       (JArr (kept_files (files_after_insert env now name st sp data (index_files env fs)))) = Inr index'"
    "save_cache_index env index' fs5 = (fs', Inr ())"
  using assms
proof (cases rule: add_to_cache_cases)
  case (saving fs5 index' u rr)
  from saving(4) obtain v where "rr = Inr v" and "ref = cache_filepath env now name"
    by (cases rr) auto
  with saving that show ?thesis
    by (simp add: evicted_def)
qed simp_all

lemma index_files_after_add:
  assumes "add_to_cache env now name st sp data fs = (fs', Inr ref)"
  shows "index_files env fs' =
    kept_files (files_after_insert env now name st sp data (index_files env fs))"
  using assms
proof (cases rule: add_to_cache_Inr)
  case (1 fs5 index' u)
  from 1(3) obtain kvs where
    "index' = JObj (AList.update (ascii ''files'')
       (JArr (kept_files (files_after_insert env now name st sp data (index_files env fs)))) kvs)"
    by (auto simp add: py_setitem_def split: json.splits)
  moreover from 1(4) have "fs' (CACHE_INDEX_FILE env) = Some (File (Serialized index'))"
    by (rule save_cache_index_index)
  ultimately show ?thesis
    by (simp add: index_files_def snd_load_cache_index update_conv')
qed

lemma save_cache_index_None:
  "save_cache_index env index fs = (fs', r) \<Longrightarrow> fs' p = None \<Longrightarrow> fs p = None"
  by (auto simp add: run_save_cache_index json_dump_def ensure_cache_dir_apply
      split: sum.splits if_splits dest!: open_write_Inr)

lemma evicted_files_gone:
  assumes "add_to_cache env now name st sp data fs = (fs', Inr ref)"
    and "old \<in> set (evicted env now name st sp data fs)"
  shows "\<exists>p. entry_path env old = Some p \<and>
    (p \<noteq> CACHE_DIR env \<longrightarrow> p \<noteq> CACHE_INDEX_FILE env \<longrightarrow> fs' p = None)"
  using assms(1)
proof (cases rule: add_to_cache_Inr)
  case (1 fs5 index' u)
  from remove_old_files_Inr [OF 1(2) assms(2)] obtain p where
    p: "entry_path env old = Some p" "fs5 p = None"
    by blast
  have "fs' p = None" if "p \<noteq> CACHE_DIR env" "p \<noteq> CACHE_INDEX_FILE env"
    using save_cache_index_apply [OF 1(4) that(2)] p(2) that(1)
    by (simp add: ensure_cache_dir_apply)
  with p(1) show ?thesis by blast
qed

lemma add_to_cache_deletes:
  assumes run: "add_to_cache env now name st sp data fs = (fs', r)"
    and p: "fs p \<noteq> None" "fs' p = None"
  shows "Some p \<in> entry_path env ` set (evicted env now name st sp data fs)"
proof -
  let ?base = "(ensure_cache_dir env fs)
     (cache_filepath env now name \<mapsto> File (Serialized (json_of_data data)))"
  have base: "?base p \<noteq> None" "ensure_cache_dir env fs p \<noteq> None"
    using p(1) by (auto simp add: ensure_cache_dir_apply)
  from run show ?thesis
  proof (cases rule: add_to_cache_cases)
    case (early e)
    with base p(2) show ?thesis by auto
  next
    case (removal e)
    from remove_old_files_apply [OF removal(2), of p] base p(2) show ?thesis
      by (auto simp add: evicted_def)
  next
    case (saving fs5 index' u rr)
    from save_cache_index_None [OF saving(3) p(2)] have "fs5 p = None" .
    with remove_old_files_apply [OF saving(1), of p] base show ?thesis
      by (auto simp add: evicted_def)
  qed
qed

lemma add_to_cache_frame:
  assumes run: "add_to_cache env now name st sp data fs = (fs', r)"
    and p: "p \<noteq> cache_filepath env now name" "p \<noteq> CACHE_INDEX_FILE env"
      "fs p \<noteq> None" "Some p \<notin> entry_path env ` set (evicted env now name st sp data fs)"
  shows "fs' p = fs p"
proof -
  let ?base = "(ensure_cache_dir env fs)
     (cache_filepath env now name \<mapsto> File (Serialized (json_of_data data)))"
  have base: "?base p = fs p" "ensure_cache_dir env fs p = fs p"
    using p by (auto simp add: ensure_cache_dir_apply)
  from run show ?thesis
  proof (cases rule: add_to_cache_cases)
    case (early e)
    with base show ?thesis by auto
  next
    case (removal e)
    from remove_old_files_apply [OF removal(2), of p] base p(4) show ?thesis
      by (auto simp add: evicted_def)
  next
    case (saving fs5 index' u rr)
    from remove_old_files_apply [OF saving(1), of p] base p(4) have "fs5 p = fs p"
      by (auto simp add: evicted_def)
    with save_cache_index_apply [OF saving(3) p(2)] p(3) show ?thesis
      by (simp add: ensure_cache_dir_apply)
  qed
qed

lemma written_file_after_add:
  assumes "add_to_cache env now name st sp data fs = (fs', Inr ref)"
    and "Some ref \<notin> entry_path env ` set (evicted env now name st sp data fs)"
  shows "fs' ref = Some (File (Serialized (json_of_data data)))"
  using assms(1)
proof (cases rule: add_to_cache_Inr)
  case (1 fs5 index' u)
  from remove_old_files_apply [OF 1(2), of ref] assms(2) 1(1)
  have "fs5 ref = Some (File (Serialized (json_of_data data)))"
    by auto
  with save_cache_index_apply [OF 1(4), of ref] 1(1) show ?thesis
    by (simp add: ensure_cache_dir_apply)
qed

lemma entry_source_new_entry [simp]:
  "entry_source (new_entry env now name st sp data) = JStr sp"
  by (simp add: entry_source_def new_entry_def py_get_def)

lemma entry_path_new_entry [simp]:
  "entry_path env (new_entry env now name st sp data) = Some (cache_filepath env now name)"
  by (simp add: entry_path_def new_entry_def py_getitem_def cache_filepath_def)


lemma set_kept_files: "set (kept_files files) \<subseteq> set files"
  by (auto simp add: kept_files_def dest: in_set_takeD)

lemma kept_files_Cons: "kept_files (f # files) = f # take 19 files"
  by (simp add: kept_files_def take_Cons')


lemma old_files_eq_drop: "old_files files = drop 20 files"
  by (simp add: old_files_def)

lemma index_files_after_add_Cons:
  assumes "add_to_cache env now name st sp data fs = (fs', Inr path)"
  shows "index_files env fs' =
    new_entry env now name st sp data #
    take 19 (filter (\<lambda>f. entry_source f \<noteq> JStr sp) (index_files env fs))"
  using index_files_after_add [OF assms] by (simp add: files_after_insert_def kept_files_Cons)

lemma distinct_sources_after_add:
  assumes run: "add_to_cache env now name st sp data fs = (fs', Inr path)"
    and dist: "distinct (map entry_source (index_files env fs))"
  shows "distinct (map entry_source (index_files env fs'))"
proof -
  let ?rest = "filter (\<lambda>f. entry_source f \<noteq> JStr sp) (index_files env fs)"
  have "distinct (map entry_source (take 19 ?rest))"
    using dist by (simp add: take_map [symmetric] distinct_map_filter)
  moreover have "JStr sp \<notin> entry_source ` set (take 19 ?rest)"
    by (auto dest: in_set_takeD)
  ultimately show ?thesis
    by (simp add: index_files_after_add_Cons [OF run])
qed

lemma round_trip_unless_evicted:
  assumes run: "add_to_cache env now name st sp data fs = (fs', Inr path)"
    and absolute: "home env \<noteq> [] \<and> hd (home env) = 47"
    and kept: "Some path \<notin> entry_path env ` set (evicted env now name st sp data fs)"
  shows "load_from_cache env path fs' = Inr (Some (json_of_data data)) \<and>
         (\<forall>data'. json_of_data data' = json_of_data data \<longrightarrow> data' = data)"
proof -
  from run have path: "path = cache_filepath env now name"
    by (cases rule: add_to_cache_Inr)
  from absolute have "CACHE_DIR env \<noteq> [] \<and> hd (CACHE_DIR env) = 47"
    by (simp add: CACHE_DIR_def os_path_join_def)
  then have "path \<noteq> [] \<and> hd path = 47"
    by (simp add: path cache_filepath_eq)
  then have join: "os_path_join (CACHE_DIR env) path = path"
    by (simp add: os_path_join_def)
  have "fs' path = Some (File (Serialized (json_of_data data)))"
    using run kept by (rule written_file_after_add)
  then have "load_from_cache env path fs' = Inr (Some (json_of_data data))"
    by (simp add: load_from_cache_def join os_path_exists_def open_read_def json_load_def)
  moreover have "inj json_of_entry"
    by (rule injI) (simp add: json_of_entry_def)
  then have "data' = data" if "json_of_data data' = json_of_data data" for data'
    using that by (simp add: json_of_data_def inj_map_eq_map)
  ultimately show ?thesis by blast
qed

subsection \<open>Every call on a well-formed cache directory returns\<close>

text \<open>
  The empty file system is well-formed, a call on a well-formed state returns the path
  of the file it wrote, and the state it leaves is well-formed again.
\<close>

lemma well_formed_empty: "well_formed env Map.empty"
  by (simp add: well_formed_def index_files_def snd_load_cache_index empty_index_def)

lemma without_source_dicts:
  "\<forall>f\<in>set files. \<exists>kvs. f = JObj kvs \<Longrightarrow>
     without_source files sp = Inr (filter (\<lambda>f. entry_source f \<noteq> JStr sp) files)"
  by (induction files) (auto simp add: py_get_def entry_source_def)

lemma remove_old_files_succeeds:
  "\<forall>old\<in>set olds. \<exists>p. entry_path env old = Some p \<and> fs p \<noteq> Some Dir \<Longrightarrow>
     \<exists>fs'. remove_old_files env olds fs = (fs', Inr ())"
proof (induction olds arbitrary: fs)
  case Nil
  then show ?case by simp
next
  case (Cons old rest)
  from Cons.prems obtain cf where
    cf: "py_getitem old (ascii ''cache_file'') = Inr (JStr cf)" and
    nodir: "fs (os_path_join (CACHE_DIR env) cf) \<noteq> Some Dir"
    by (auto simp add: entry_path_def split: sum.splits json.splits)
  let ?q = "os_path_join (CACHE_DIR env) cf"
  have rest: "\<forall>old\<in>set rest. \<exists>p. entry_path env old = Some p \<and> (fs(?q := None)) p \<noteq> Some Dir"
  proof
    fix x
    assume "x \<in> set rest"
    with Cons.prems obtain p where p: "entry_path env x = Some p" "fs p \<noteq> Some Dir"
      by auto
    then have "(fs(?q := None)) p \<noteq> Some Dir"
      by simp
    with p(1) show "\<exists>p. entry_path env x = Some p \<and> (fs(?q := None)) p \<noteq> Some Dir"
      by blast
  qed
  show ?case
  proof (cases "fs ?q")
    case None
    with cf Cons.IH [of fs] Cons.prems show ?thesis
      by (simp add: os_path_exists_def)
  next
    case (Some nd)
    with nodir obtain c where c: "fs ?q = Some (File c)"
      by (cases nd) auto
    from Cons.IH [OF rest] obtain fs' where
      "remove_old_files env rest (fs(?q := None)) = (fs', Inr ())" ..
    moreover have "remove_old_files env (old # rest) fs =
        remove_old_files env rest (fs(?q := None))"
      using cf c by (simp add: os_path_exists_def os_remove_def)
    ultimately show ?thesis by simp
  qed
qed

lemma add_to_cache_returns:
  assumes dirs: "\<forall>p. fs p = Some Dir \<longrightarrow> p = CACHE_DIR env"
    and shape: "\<exists>kvs xs. snd (load_cache_index env fs) = JObj kvs \<and>
        map_of kvs (ascii ''files'') = Some (JArr xs)"
    and entries: "\<forall>f\<in>set (index_files env fs).
        (\<exists>kvs. f = JObj kvs) \<and> (\<exists>p. entry_path env f = Some p \<and> p \<noteq> CACHE_DIR env)"
  shows "\<exists>fs'. add_to_cache env now name st sp data fs = (fs', Inr (cache_filepath env now name))"
proof -
  let ?fs1 = "ensure_cache_dir env fs"
  let ?path = "cache_filepath env now name"
  let ?base = "?fs1(?path \<mapsto> File (Serialized (json_of_data data)))"
  let ?index = "snd (load_cache_index env fs)"
  let ?files3 = "files_after_insert env now name st sp data (index_files env fs)"
  from shape obtain kvs xs where index: "?index = JObj kvs" and
    files: "map_of kvs (ascii ''files'') = Some (JArr xs)"
    by blast
  then have xs: "index_files env fs = xs"
    by (simp add: index_files_def)
  from dirs have nodir: "fs p \<noteq> Some Dir" if "p \<noteq> CACHE_DIR env" for p
    using that by blast
  have "?fs1 ?path \<noteq> Some Dir"
    using nodir [of ?path] by (simp add: ensure_cache_dir_apply)
  then have 1: "open_write ?path ?fs1 = Inr (?fs1(?path \<mapsto> File Unparsable))"
    by (auto simp add: open_write_def split: option.splits node.splits)
  have 2: "json_dump (json_of_data data) ?path (?fs1(?path \<mapsto> File Unparsable)) = ?base"
    by (simp add: json_dump_def)
  have 3: "load_cache_index env ?base = (?base, ?index)"
    by (rule load_cache_index_after_write)
  have 4: "py_getitem ?index (ascii ''files'') = Inr (JArr xs)"
    using index files by (simp add: py_getitem_def)
  have 5: "py_iter (JArr xs) = Inr xs"
    by (simp add: py_iter_def)
  have "\<forall>f\<in>set xs. \<exists>kvs. f = JObj kvs"
    using entries xs by blast
  then have 6: "without_source xs sp = Inr (filter (\<lambda>f. entry_source f \<noteq> JStr sp) xs)"
    by (rule without_source_dicts)
  have 7: "new_entry env now name st sp data # filter (\<lambda>f. entry_source f \<noteq> JStr sp) xs = ?files3"
    by (simp add: files_after_insert_def xs)
  have "\<exists>p. entry_path env old = Some p \<and> p \<noteq> CACHE_DIR env"
    if "old \<in> set ?files3" for old
    using that entries by (auto simp add: files_after_insert_def)
  moreover have "?base p \<noteq> Some Dir" if "p \<noteq> CACHE_DIR env" for p
    using nodir [OF that] that by (simp add: ensure_cache_dir_apply)
  ultimately have "\<forall>old\<in>set (old_files ?files3). \<exists>p. entry_path env old = Some p \<and> ?base p \<noteq> Some Dir"
    by (metis in_set_dropD old_files_eq_drop)
  from remove_old_files_succeeds [OF this]
  obtain fs5 where 8: "remove_old_files env (old_files ?files3) ?base = (fs5, Inr ())"
    by blast
  let ?index' = "JObj (AList.update (ascii ''files'') (JArr (kept_files ?files3)) kvs)"
  have 9: "py_setitem ?index (ascii ''files'') (JArr (kept_files ?files3)) = Inr ?index'"
    using index by (simp add: py_setitem_def)
  have "fs5 (CACHE_INDEX_FILE env) \<noteq> Some Dir"
    using remove_old_files_apply [OF 8, of "CACHE_INDEX_FILE env"] nodir [of "CACHE_INDEX_FILE env"]
    by (auto simp add: ensure_cache_dir_apply)
  then have "ensure_cache_dir env fs5 (CACHE_INDEX_FILE env) \<noteq> Some Dir"
    by (simp add: ensure_cache_dir_apply)
  then have "\<exists>fs6. save_cache_index env ?index' fs5 = (fs6, Inr ())"
    by (auto simp add: run_save_cache_index open_write_def split: option.splits node.splits)
  then obtain fs6 where 10: "save_cache_index env ?index' fs5 = (fs6, Inr ())" ..
  have "add_to_cache env now name st sp data fs = (fs6, Inr ?path)"
    by (simp add: add_to_cache_def 1 2 3 4 5 6 7 8 9 10)
  then show ?thesis by blast
qed

lemma add_to_cache_succeeds:
  assumes wf: "well_formed env fs"
  shows "\<exists>fs'. add_to_cache env now name st sp data fs = (fs', Inr (cache_filepath env now name))"
proof (rule add_to_cache_returns)
  from wf show "\<forall>p. fs p = Some Dir \<longrightarrow> p = CACHE_DIR env"
    by (simp add: well_formed_def)
  from wf show "\<exists>kvs xs. snd (load_cache_index env fs) = JObj kvs \<and>
        map_of kvs (ascii ''files'') = Some (JArr xs)"
    by (simp add: well_formed_def)
  from wf show "\<forall>f\<in>set (index_files env fs).
        (\<exists>kvs. f = JObj kvs) \<and> (\<exists>p. entry_path env f = Some p \<and> p \<noteq> CACHE_DIR env)"
    unfolding well_formed_def by blast
qed

lemma well_formed_after_add:
  assumes wf: "well_formed env fs"
    and run: "add_to_cache env now name st sp data fs = (fs', Inr path)"
  shows "well_formed env fs'"
proof -
  from run obtain fs5 index' u where
    path: "path = cache_filepath env now name" and
    rm: "remove_old_files env (evicted env now name st sp data fs)
       ((ensure_cache_dir env fs)
          (cache_filepath env now name \<mapsto> File (Serialized (json_of_data data)))) = (fs5, Inr u)" and
    set: "py_setitem (snd (load_cache_index env fs)) (ascii ''files'')
       (JArr (kept_files (files_after_insert env now name st sp data (index_files env fs)))) = Inr index'" and
    save: "save_cache_index env index' fs5 = (fs', Inr ())"
    by (rule add_to_cache_Inr)
  have index: "fs' (CACHE_INDEX_FILE env) = Some (File (Serialized index'))"
    using save by (rule save_cache_index_index)
  have dirs: "p = CACHE_DIR env" if "fs' p = Some Dir" for p
  proof (rule ccontr)
    assume p: "p \<noteq> CACHE_DIR env"
    from that index have "p \<noteq> CACHE_INDEX_FILE env" by auto
    from save_cache_index_apply [OF save this] that p have "fs5 p = Some Dir"
      by (simp add: ensure_cache_dir_apply)
    with remove_old_files_apply [OF rm, of p] p have "fs p = Some Dir"
      by (auto simp add: ensure_cache_dir_apply split: if_splits)
    with wf p show False
      by (auto simp add: well_formed_def)
  qed
  from set obtain kvs where
    "index' = JObj (AList.update (ascii ''files'')
       (JArr (kept_files (files_after_insert env now name st sp data (index_files env fs)))) kvs)"
    by (auto simp add: py_setitem_def split: json.splits)
  with index have shape: "\<exists>kvs xs. snd (load_cache_index env fs') = JObj kvs \<and>
        map_of kvs (ascii ''files'') = Some (JArr xs)"
    by (simp add: snd_load_cache_index update_conv')
  have entries: "(\<exists>kvs. f = JObj kvs) \<and>
        (\<exists>p. entry_path env f = Some p \<and> p \<noteq> CACHE_DIR env \<and> p \<noteq> CACHE_INDEX_FILE env)"
    if "f \<in> set (index_files env fs')" for f
  proof -
    from that have "f \<in> set (files_after_insert env now name st sp data (index_files env fs))"
      using index_files_after_add [OF run] set_kept_files by auto
    then consider "f = new_entry env now name st sp data" | "f \<in> set (index_files env fs)"
      by (auto simp add: files_after_insert_def)
    then show ?thesis
    proof cases
      case 1
      then have "\<exists>kvs. f = JObj kvs"
        by (simp add: new_entry_def)
      moreover have "entry_path env f = Some (cache_filepath env now name)"
        using 1 by simp
      ultimately show ?thesis by simp
    next
      case 2
      with wf show ?thesis by (auto simp add: well_formed_def)
    qed
  qed
  from dirs shape entries show ?thesis
    unfolding well_formed_def by blast
qed

lemma add_all_succeeds:
  "well_formed env fs \<Longrightarrow> \<exists>fs'. add_all env calls fs = (fs', Inr ()) \<and> well_formed env fs'"
proof (induction calls arbitrary: fs)
  case Nil
  then show ?case by simp
next
  case (Cons c calls)
  from add_to_cache_succeeds [OF Cons.prems] obtain fs1 where
    run: "add_to_cache env (at c) (name_arg c) (source_type_arg c) (source_path_arg c) (data_arg c) fs =
      (fs1, Inr (cache_filepath env (at c) (name_arg c)))"
    by blast
  from well_formed_after_add [OF Cons.prems run] have "well_formed env fs1" .
  from Cons.IH [OF this] run show ?case by simp
qed

lemma distinct_sources_after_add_all:
  "add_all env calls fs = (fs', Inr ()) \<Longrightarrow> distinct (map entry_source (index_files env fs)) \<Longrightarrow>
     distinct (map entry_source (index_files env fs'))"
proof (induction calls arbitrary: fs)
  case Nil
  then show ?case by simp
next
  case (Cons c calls)
  from Cons.prems(1) obtain fs1 path where
    run: "add_to_cache env (at c) (name_arg c) (source_type_arg c) (source_path_arg c) (data_arg c) fs =
      (fs1, Inr path)" and rest: "add_all env calls fs1 = (fs', Inr ())"
    by (auto split: prod.splits sum.splits)
  from run Cons.prems(2) have "distinct (map entry_source (index_files env fs1))"
    by (rule distinct_sources_after_add)
  with Cons.IH [OF rest] show ?case .
qed


subsection \<open>Calls with fresh sources\<close>

text \<open>
  As long as the sources are new and the index has room, every call puts its entry at the
  front and no file disappears.
\<close>

lemma index_files_empty [simp]: "index_files env Map.empty = []"
  by (simp add: index_files_def snd_load_cache_index empty_index_def)

lemma add_to_cache_keeps_files:
  assumes "add_to_cache env now name st sp data fs = (fs', r)"
    and "evicted env now name st sp data fs = []"
    and "os_path_exists fs p"
  shows "os_path_exists fs' p"
  using add_to_cache_deletes [OF assms(1), of p] assms(2,3)
  by (auto simp add: os_path_exists_def)

lemma evicted_Nil:
  "length (index_files env fs) < 20 \<Longrightarrow> evicted env now name st sp data fs = []"
proof -
  assume "length (index_files env fs) < 20"
  moreover have "length (filter (\<lambda>f. entry_source f \<noteq> JStr sp) (index_files env fs))
      \<le> length (index_files env fs)"
    by (rule length_filter_le)
  ultimately have "length (filter (\<lambda>f. entry_source f \<noteq> JStr sp) (index_files env fs)) < 20"
    by (rule le_less_trans [rotated])
  then show ?thesis
    by (simp add: evicted_def old_files_def files_after_insert_def)
qed

lemma add_all_fresh_sources_files:
  assumes "well_formed env fs"
    and "distinct (map source_path_arg calls)"
    and "\<forall>c\<in>set calls. JStr (source_path_arg c) \<notin> entry_source ` set (index_files env fs)"
    and "length calls + length (index_files env fs) \<le> 20"
  shows "\<exists>fs'. add_all env calls fs = (fs', Inr ()) \<and> well_formed env fs' \<and>
    index_files env fs' = rev (map (entry_of env) calls) @ index_files env fs \<and>
    (\<forall>p. os_path_exists fs p \<longrightarrow> os_path_exists fs' p) \<and>
    (\<forall>c\<in>set calls. os_path_exists fs' (cache_filepath env (at c) (name_arg c)))"
  using assms
proof (induction calls arbitrary: fs)
  case Nil
  then show ?case by simp
next
  case (Cons c calls)
  let ?path = "cache_filepath env (at c) (name_arg c)"
  from add_to_cache_succeeds [OF Cons.prems(1)] obtain fs1 where
    run: "add_to_cache env (at c) (name_arg c) (source_type_arg c) (source_path_arg c) (data_arg c) fs =
      (fs1, Inr ?path)"
    by blast
  from well_formed_after_add [OF Cons.prems(1) run] have wf1: "well_formed env fs1" .
  have none: "evicted env (at c) (name_arg c) (source_type_arg c) (source_path_arg c) (data_arg c) fs = []"
    using Cons.prems(4) by (intro evicted_Nil) simp
  have same: "filter (\<lambda>f. entry_source f \<noteq> JStr (source_path_arg c)) (index_files env fs) = index_files env fs"
    using Cons.prems(3) by (auto simp add: filter_id_conv image_iff)
  have files1: "index_files env fs1 = entry_of env c # index_files env fs"
    using index_files_after_add [OF run] Cons.prems(4)
    by (simp add: files_after_insert_def same kept_files_def entry_of_def)
  have keep1: "os_path_exists fs1 p" if "os_path_exists fs p" for p
    using run none that by (rule add_to_cache_keeps_files)
  have written: "os_path_exists fs1 ?path"
    using written_file_after_add [OF run] none by (simp add: os_path_exists_def)
  have "\<forall>d\<in>set calls. JStr (source_path_arg d) \<notin> entry_source ` set (index_files env fs1)"
  proof
    fix d
    assume d: "d \<in> set calls"
    from Cons.prems(2) have "source_path_arg c \<notin> source_path_arg ` set calls"
      by simp
    with d have "source_path_arg d \<noteq> source_path_arg c"
      by (metis imageI)
    with d Cons.prems(3) show "JStr (source_path_arg d) \<notin> entry_source ` set (index_files env fs1)"
      by (simp add: files1 entry_of_def)
  qed
  moreover have "distinct (map source_path_arg calls)"
    using Cons.prems(2) by simp
  moreover have "length calls + length (index_files env fs1) \<le> 20"
    using Cons.prems(4) by (simp add: files1)
  ultimately obtain fs' where fs': "add_all env calls fs1 = (fs', Inr ())" "well_formed env fs'"
    "index_files env fs' = rev (map (entry_of env) calls) @ index_files env fs1"
    "\<forall>p. os_path_exists fs1 p \<longrightarrow> os_path_exists fs' p"
    "\<forall>c\<in>set calls. os_path_exists fs' (cache_filepath env (at c) (name_arg c))"
    using Cons.IH [OF wf1] by blast
  have "add_all env (c # calls) fs = (fs', Inr ())"
    using run fs'(1) by simp
  moreover have "index_files env fs' = rev (map (entry_of env) (c # calls)) @ index_files env fs"
    using fs'(3) files1 by simp
  moreover have "\<forall>p. os_path_exists fs p \<longrightarrow> os_path_exists fs' p"
    using keep1 fs'(4) by blast
  moreover have "\<forall>d\<in>set (c # calls). os_path_exists fs' (cache_filepath env (at d) (name_arg d))"
    using written fs'(4,5) by auto
  ultimately show ?case
    using fs'(2) by blast
qed

subsection \<open>The example states\<close>

lemma distinct_example_sources: "distinct (map source_path_arg (map example_call [0..<n]))"
  by (simp add: distinct_map inj_on_def example_call_def)

lemma distinct_same_name_sources: "distinct (map source_path_arg (map same_name_call [0..<n]))"
  by (simp add: distinct_map inj_on_def same_name_call_def)

lemma fs_full_facts:
  "add_all env0 (map example_call [0..<20]) Map.empty = (fs_full, Inr ())"
  "well_formed env0 fs_full"
  "index_files env0 fs_full = rev (map (entry_of env0) (map example_call [0..<20]))"
  "os_path_exists fs_full (cache_filepath env0 now0 (name_arg (example_call 0)))"
proof -
  from add_all_fresh_sources_files [OF well_formed_empty distinct_example_sources, of 20 env0]
  obtain fs' where fs': "add_all env0 (map example_call [0..<20]) Map.empty = (fs', Inr ())"
    "well_formed env0 fs'"
    "index_files env0 fs' = rev (map (entry_of env0) (map example_call [0..<20]))"
    "\<forall>c\<in>set (map example_call [0..<20]). os_path_exists fs' (cache_filepath env0 (at c) (name_arg c))"
    by auto
  from fs'(1) have eq: "fs_full = fs'"
    by (simp add: fs_full_def)
  from fs'(4) have "os_path_exists fs' (cache_filepath env0 (at (example_call 0)) (name_arg (example_call 0)))"
    by simp
  then have "os_path_exists fs' (cache_filepath env0 now0 (name_arg (example_call 0)))"
    by (simp add: example_call_def)
  with fs' eq show
    "add_all env0 (map example_call [0..<20]) Map.empty = (fs_full, Inr ())"
    "well_formed env0 fs_full"
    "index_files env0 fs_full = rev (map (entry_of env0) (map example_call [0..<20]))"
    "os_path_exists fs_full (cache_filepath env0 now0 (name_arg (example_call 0)))"
    by simp_all
qed

lemma fs_same_facts:
  "add_all env0 (map same_name_call [0..<20]) Map.empty = (fs_same, Inr ())"
  "well_formed env0 fs_same"
  "index_files env0 fs_same = rev (map (entry_of env0) (map same_name_call [0..<20]))"
proof -
  from add_all_fresh_sources_files [OF well_formed_empty distinct_same_name_sources, of 20 env0]
  obtain fs' where fs': "add_all env0 (map same_name_call [0..<20]) Map.empty = (fs', Inr ())"
    "well_formed env0 fs'"
    "index_files env0 fs' = rev (map (entry_of env0) (map same_name_call [0..<20]))"
    by auto
  from fs'(1) have eq: "fs_same = fs'"
    by (simp add: fs_same_def)
  with fs' show
    "add_all env0 (map same_name_call [0..<20]) Map.empty = (fs_same, Inr ())"
    "well_formed env0 fs_same"
    "index_files env0 fs_same = rev (map (entry_of env0) (map same_name_call [0..<20]))"
    by simp_all
qed

lemma drop_20_rev_upt:
  "drop 20 (x # rev (map f [0..<20])) = [f 0]"
proof -
  have "[0..<20] = 0 # [1..<20]"
    by (simp add: upt_conv_Cons)
  then have "x # rev (map f [0..<20]) = (x # rev (map f [1..<20])) @ [f 0]"
    by simp
  moreover have "length (x # rev (map f [1..<20])) = 20"
    by simp
  ultimately show ?thesis
    by (metis append_eq_conv_conj)
qed

lemma os_path_join_absolute: "p \<noteq> [] \<Longrightarrow> hd p = 47 \<Longrightarrow> os_path_join a p = p"
  by (simp add: os_path_join_def)

lemma cache_filepath_absolute:
  assumes "home env \<noteq> [] \<and> hd (home env) = 47"
  shows "cache_filepath env now name \<noteq> [] \<and> hd (cache_filepath env now name) = 47"
proof -
  from assms have "CACHE_DIR env \<noteq> [] \<and> hd (CACHE_DIR env) = 47"
    by (simp add: CACHE_DIR_def os_path_join_def)
  then show ?thesis
    by (simp add: cache_filepath_eq)
qed

lemma home_env0: "home env0 \<noteq> [] \<and> hd (home env0) = 47"
  by (simp add: env0_def ascii_Cons)

lemma words_path:
  "cache_filepath env0 now0 (ascii ''words'') =
     ascii ''/home/u/.hanja_memorizer/words_20240102_030405.json''"
  by code_simp

lemma words_path_later:
  "cache_filepath env0 now1 (ascii ''words'') \<noteq> cache_filepath env0 now0 (ascii ''words'')"
  by code_simp

lemma fs_one_facts:
  "add_all env0 [same_name_call 0] Map.empty = (fs_one, Inr ())"
  "well_formed env0 fs_one"
  "index_files env0 fs_one = [entry_of env0 (same_name_call 0)]"
  "fs_one (cache_filepath env0 now0 (ascii ''words'')) = Some (File (Serialized (json_of_data data0)))"
proof -
  from add_to_cache_succeeds [OF well_formed_empty, of env0 now0 "ascii ''words''" "ascii ''local''"
      "source_path_arg (same_name_call 0)" data0]
  obtain fs' where run: "add_to_cache env0 now0 (ascii ''words'') (ascii ''local'')
      (source_path_arg (same_name_call 0)) data0 Map.empty =
      (fs', Inr (cache_filepath env0 now0 (ascii ''words'')))"
    by blast
  then have all: "add_all env0 [same_name_call 0] Map.empty = (fs', Inr ())"
    by (simp add: same_name_call_def)
  then have eq: "fs_one = fs'"
    by (simp add: fs_one_def)
  have none: "evicted env0 now0 (ascii ''words'') (ascii ''local'')
      (source_path_arg (same_name_call 0)) data0 Map.empty = []"
    by (rule evicted_Nil) simp
  have "index_files env0 fs' = [entry_of env0 (same_name_call 0)]"
    using index_files_after_add [OF run]
    by (simp add: files_after_insert_def kept_files_def entry_of_def same_name_call_def)
  moreover have "fs' (cache_filepath env0 now0 (ascii ''words'')) =
      Some (File (Serialized (json_of_data data0)))"
    using written_file_after_add [OF run] none by simp
  moreover have "well_formed env0 fs'"
    using well_formed_empty run by (rule well_formed_after_add)
  ultimately show
    "add_all env0 [same_name_call 0] Map.empty = (fs_one, Inr ())"
    "well_formed env0 fs_one"
    "index_files env0 fs_one = [entry_of env0 (same_name_call 0)]"
    "fs_one (cache_filepath env0 now0 (ascii ''words'')) = Some (File (Serialized (json_of_data data0)))"
    using all eq by simp_all
qed

lemma entry_of_same_name [simp]:
  "entry_source (entry_of env0 (same_name_call i)) = JStr (source_path_arg (same_name_call i))"
  "entry_path env0 (entry_of env0 (same_name_call i)) = Some (cache_filepath env0 now0 (ascii ''words''))"
  by (simp_all add: entry_of_def same_name_call_def)

lemma entry_of_example [simp]:
  "entry_source (entry_of env0 (example_call i)) = JStr (source_path_arg (example_call i))"
  "entry_path env0 (entry_of env0 (example_call i)) =
     Some (cache_filepath env0 now0 (name_arg (example_call i)))"
  by (simp_all add: entry_of_def example_call_def)

lemma evicted_from_fs_same:
  "evicted env0 now0 (ascii ''words'') (ascii ''local'') (source_path_arg (same_name_call 20)) data0 fs_same =
     [entry_of env0 (same_name_call 0)]"
proof -
  have "filter (\<lambda>f. entry_source f \<noteq> JStr (source_path_arg (same_name_call 20)))
      (rev (map (entry_of env0 \<circ> same_name_call) [0..<20])) =
      rev (map (entry_of env0 \<circ> same_name_call) [0..<20])"
    by (simp add: filter_id_conv) (simp add: same_name_call_def)
  then show ?thesis
    using drop_20_rev_upt [of _ "entry_of env0 \<circ> same_name_call"]
    by (simp add: evicted_def files_after_insert_def fs_same_facts(3) old_files_eq_drop)
qed

lemma evicted_from_fs_full:
  "evicted env0 now0 (name_arg (example_call 20)) (ascii ''local'')
     (source_path_arg (example_call 20)) data0 fs_full =
     [entry_of env0 (example_call 0)]"
proof -
  have "filter (\<lambda>f. entry_source f \<noteq> JStr (source_path_arg (example_call 20)))
      (rev (map (entry_of env0 \<circ> example_call) [0..<20])) =
      rev (map (entry_of env0 \<circ> example_call) [0..<20])"
    by (simp add: filter_id_conv) (simp add: example_call_def)
  then show ?thesis
    using drop_20_rev_upt [of _ "entry_of env0 \<circ> example_call"]
    by (simp add: evicted_def files_after_insert_def fs_full_facts(3) old_files_eq_drop)
qed

subsection \<open>Saving the index, interrupted\<close>

lemma interrupted_save_eq:
  "interrupted_save env index fs =
     (case open_write (CACHE_INDEX_FILE env) (ensure_cache_dir env fs) of
        Inl e \<Rightarrow> (ensure_cache_dir env fs, Inl e)
      | Inr fs' \<Rightarrow> (fs', Inr ()))"
  by (simp add: interrupted_save_def save_cache_index_steps_def split: sum.splits)

subsection \<open>Searching for a pattern\<close>

text \<open>
  A search finds a match exactly when the pattern occurs, and the group it returns is a
  non-empty run of class characters that follows the literal.
\<close>

lemma match_here_Some:
  assumes "match_here lit s = Some g"
  shows "g \<noteq> [] \<and> (\<forall>c\<in>set g. sheet_id_char c) \<and> (\<exists>post. s = lit @ g @ post)"
proof -
  let ?rest = "drop (length lit) s"
  from assms have lit: "take (length lit) s = lit" and g: "g = takeWhile sheet_id_char ?rest"
    and ne: "g \<noteq> []"
    by (auto simp add: match_here_def Let_def split: if_splits)
  have "s = take (length lit) s @ ?rest"
    by simp
  also have "?rest = g @ dropWhile sheet_id_char ?rest"
    by (simp add: g)
  finally have "s = lit @ g @ dropWhile sheet_id_char ?rest"
    using lit by simp
  moreover have "\<forall>c\<in>set g. sheet_id_char c"
    by (auto simp add: g dest: set_takeWhileD)
  ultimately show ?thesis
    using ne by blast
qed

lemma match_here_at:
  assumes "sheet_id_char c"
  shows "match_here lit (lit @ c # post) \<noteq> None"
  using assms by (simp add: match_here_def)

lemma re_search_Some:
  "re_search lit s = Some g \<Longrightarrow>
     g \<noteq> [] \<and> (\<forall>c\<in>set g. sheet_id_char c) \<and> (\<exists>pre post. s = pre @ lit @ g @ post)"
proof (induction s)
  case Nil
  then have "match_here lit [] = Some g" by simp
  from match_here_Some [OF this] show ?case
    by (metis append_Nil)
next
  case (Cons a s)
  show ?case
  proof (cases "match_here lit (a # s)")
    case (Some g')
    with Cons.prems have "match_here lit (a # s) = Some g" by simp
    from match_here_Some [OF this] show ?thesis
      by (metis append_Nil)
  next
    case None
    with Cons.prems have "re_search lit s = Some g" by simp
    from Cons.IH [OF this] obtain pre post where
      "g \<noteq> []" "\<forall>c\<in>set g. sheet_id_char c" "s = pre @ lit @ g @ post"
      by blast
    then have "a # s = (a # pre) @ lit @ g @ post"
      by simp
    with \<open>g \<noteq> []\<close> \<open>\<forall>c\<in>set g. sheet_id_char c\<close> show ?thesis
      by blast
  qed
qed

lemma re_search_None:
  "re_search lit s = None \<Longrightarrow> \<not> pattern_occurs lit s"
proof (induction s)
  case Nil
  then show ?case by (simp add: pattern_occurs_def)
next
  case (Cons a s)
  from Cons.prems have here: "match_here lit (a # s) = None" and rest: "re_search lit s = None"
    by (auto split: option.splits)
  show ?case
  proof
    assume "pattern_occurs lit (a # s)"
    then obtain pre c post where eq: "a # s = pre @ lit @ c # post" and c: "sheet_id_char c"
      by (auto simp add: pattern_occurs_def)
    show False
    proof (cases pre)
      case Nil
      with eq have "a # s = lit @ c # post" by simp
      with match_here_at [OF c, of lit post] here show False by simp
    next
      case (Cons b pre')
      with eq have "s = pre' @ lit @ c # post" by simp
      with c have "pattern_occurs lit s"
        by (auto simp add: pattern_occurs_def)
      with Cons.IH [OF rest] show False by simp
    qed
  qed
qed

lemma re_search_occurs:
  "pattern_occurs lit s \<Longrightarrow> \<exists>g. re_search lit s = Some g"
  using re_search_None [of lit s] by (cases "re_search lit s") auto

lemma re_search_Some_occurs:
  assumes "re_search lit s = Some g"
  shows "pattern_occurs lit s"
proof -
  from re_search_Some [OF assms] obtain c g' pre post where
    "g = c # g'" "sheet_id_char c" "s = pre @ lit @ g @ post"
    by (cases g) auto
  then show ?thesis
    by (auto simp add: pattern_occurs_def)
qed

lemma extract_google_sheet_id_eq:
  "extract_google_sheet_id url =
     (case re_search (ascii ''/spreadsheets/d/'') url of
        Some g \<Rightarrow> Some g
      | None \<Rightarrow> re_search (ascii ''id='') url)"
  by (simp add: extract_google_sheet_id_def patterns_def split: option.splits)

lemma csv_url_default_gid:
  "get_google_sheet_csv_url url (ascii ''0'') =
     (case extract_google_sheet_id url of
        None \<Rightarrow> None
      | Some sheet_id \<Rightarrow>
          if sheet_id \<noteq> [] then
            Some (ascii ''https://docs.google.com/spreadsheets/d/'' @ sheet_id @
                  ascii ''/export?format=csv&gid=0'')
          else None)"
  by (simp add: get_google_sheet_csv_url_def ascii_def split: option.splits)

subsection \<open>A stale entry that names the index file\<close>






section \<open>The claims\<close>

subsection \<open>C1\<close>

text \<open>
  Claim C1. When \<^verbatim>\<open>add_to_cache\<close> returns and the source identifier was already in
  the index, the new index has exactly one entry with that source identifier, it is the
  entry just built and it is at position 0, the index has not grown, and an index with
  at most one entry per source identifier stays so.
\<close>

theorem duplicate_source_replaced_at_front:
  assumes run: "add_to_cache env now name st sp data fs = (fs', Inr path)"
    and present: "JStr sp \<in> entry_source ` set (index_files env fs)"
  shows "length (filter (\<lambda>f. entry_source f = JStr sp) (index_files env fs')) = 1 \<and>
         index_files env fs' \<noteq> [] \<and>
         index_files env fs' ! 0 = new_entry env now name st sp data \<and>
         entry_source (index_files env fs' ! 0) = JStr sp \<and>
         length (index_files env fs') \<le> length (index_files env fs) \<and>
         (distinct (map entry_source (index_files env fs)) \<longrightarrow>
          distinct (map entry_source (index_files env fs')))"
proof -
  let ?rest = "filter (\<lambda>f. entry_source f \<noteq> JStr sp) (index_files env fs)"
  have after: "index_files env fs' = new_entry env now name st sp data # take 19 ?rest"
    using run by (rule index_files_after_add_Cons)
  have none: "filter (\<lambda>f. entry_source f = JStr sp) (take 19 ?rest) = []"
    by (auto simp add: filter_empty_conv dest: in_set_takeD)
  from present have "length ?rest < length (index_files env fs)"
    by (auto intro!: length_filter_less)
  then have shorter: "length (take 19 ?rest) < length (index_files env fs)"
    by simp
  have "distinct (map entry_source (index_files env fs'))"
    if "distinct (map entry_source (index_files env fs))"
    using run that by (rule distinct_sources_after_add)
  with after none shorter show ?thesis
    by auto
qed

text \<open>
  Witness for C1: the source of the one entry of \<open>fs_one\<close> is loaded again a minute
  later.
\<close>

theorem duplicate_source_witness:
  "JStr (source_path_arg reload_later) \<in> entry_source ` set (index_files env0 fs_one) \<and>
   snd (call_on reload_later fs_one) = Inr (cache_filepath env0 now1 (ascii ''words'')) \<and>
   length (filter (\<lambda>f. entry_source f = JStr (source_path_arg reload_later))
     (index_files env0 (fst (call_on reload_later fs_one)))) = 1 \<and>
   index_files env0 (fst (call_on reload_later fs_one)) ! 0 = entry_of env0 reload_later \<and>
   length (index_files env0 (fst (call_on reload_later fs_one))) \<le> length (index_files env0 fs_one) \<and>
   distinct (map entry_source (index_files env0 fs_one)) \<and>
   distinct (map entry_source (index_files env0 (fst (call_on reload_later fs_one))))"
proof -
  let ?sp = "source_path_arg reload_later"
  from add_to_cache_succeeds [OF fs_one_facts(2), of now1 "ascii ''words''" "ascii ''local''" ?sp data1]
  obtain fs' where run: "add_to_cache env0 now1 (ascii ''words'') (ascii ''local'') ?sp data1 fs_one =
      (fs', Inr (cache_filepath env0 now1 (ascii ''words'')))"
    by blast
  then have call: "call_on reload_later fs_one = (fs', Inr (cache_filepath env0 now1 (ascii ''words'')))"
    by (simp add: call_on_def reload_later_def same_name_call_def)
  have present: "JStr ?sp \<in> entry_source ` set (index_files env0 fs_one)"
    by (simp add: fs_one_facts(3) reload_later_def)
  have dist: "distinct (map entry_source (index_files env0 fs_one))"
    by (simp add: fs_one_facts(3))
  have entry: "entry_of env0 reload_later = new_entry env0 now1 (ascii ''words'') (ascii ''local'') ?sp data1"
    by (simp add: entry_of_def reload_later_def same_name_call_def)
  from duplicate_source_replaced_at_front [OF run present] call present dist entry show ?thesis
    by simp
qed

subsection \<open>C2\<close>




subsection \<open>C3\<close>

text \<open>
  Claim C3: \<^verbatim>\<open>load_from_cache\<close> on the path that \<^verbatim>\<open>add_to_cache\<close> returns gives
  back the records. The code breaks it. Twenty-one files of the same name, from
  different directories, are loaded within the same second, starting from the empty
  file system. All calls return. The twenty-first writes its cache file; the cap then
  evicts the entry of the first load, whose cache file has the same name, and removes
  the file just written; the call still returns the path of that file, and
  \<^verbatim>\<open>load_from_cache\<close> on it returns \<^verbatim>\<open>None\<close>.
\<close>

theorem round_trip_fails_after_eviction:
  "snd (add_all env0 (map same_name_call [0..<20]) Map.empty) = Inr () \<and>
   snd (call_on (same_name_call 20) fs_same) =
     Inr (ascii ''/home/u/.hanja_memorizer/words_20240102_030405.json'') \<and>
   load_from_cache env0 (ascii ''/home/u/.hanja_memorizer/words_20240102_030405.json'')
     (fst (call_on (same_name_call 20) fs_same)) = Inr None"
proof -
  let ?p = "cache_filepath env0 now0 (ascii ''words'')"
  from add_to_cache_succeeds [OF fs_same_facts(2), of now0 "ascii ''words''" "ascii ''local''"
      "source_path_arg (same_name_call 20)" data0]
  obtain fs' where run: "add_to_cache env0 now0 (ascii ''words'') (ascii ''local'')
      (source_path_arg (same_name_call 20)) data0 fs_same = (fs', Inr ?p)"
    by blast
  then have call: "call_on (same_name_call 20) fs_same = (fs', Inr ?p)"
    by (simp add: call_on_def same_name_call_def)
  have "entry_of env0 (same_name_call 0) \<in> set (evicted env0 now0 (ascii ''words'') (ascii ''local'')
      (source_path_arg (same_name_call 20)) data0 fs_same)"
    by (simp add: evicted_from_fs_same)
  from evicted_files_gone [OF run this] have gone: "fs' ?p = None"
    by simp
  have "os_path_join (CACHE_DIR env0) ?p = ?p"
    using cache_filepath_absolute [OF home_env0] by (simp add: os_path_join_absolute)
  with gone have "load_from_cache env0 ?p fs' = Inr None"
    by (simp add: load_from_cache_def os_path_exists_def)
  with call fs_same_facts(1) show ?thesis
    by (simp add: words_path)
qed

subsection \<open>C4\<close>

text \<open>
  Counterexample to C4 as stated. The character cell of the row holds the text
  \<^verbatim>\<open>"nan"\<close>: it is not empty and it is not the header label, and yet the row is
  left out.
\<close>

theorem parse_dataframe_nan_counterexample:
  "cell_str (Cell (ascii ''nan'')) \<noteq> [] \<and> cell_str (Cell (ascii ''nan'')) \<noteq> header_label \<and>
   parse_dataframe [[Cell (ascii ''1''), Cell (ascii ''nan''), Cell (ascii ''r''), Cell (ascii ''m'')]] = []"
  by (simp add: parse_dataframe_def extract_row_def iloc_def cell_str_def header_label_def
      ascii_Cons Let_def)

text \<open>
  Claim C4, amended. \<^verbatim>\<open>parse_dataframe\<close> returns, in the order of the rows, the
  records of the rows that have the cells at positions 2, 3 and 4 (a row without them
  raises and is skipped) and whose character cell, a missing cell read as the empty
  string, is not empty, is not \<^verbatim>\<open>"nan"\<close> and is not the header label. On the
  three rows of the example it returns the one record of the first row.
\<close>

theorem parse_dataframe_rows:
  "parse_dataframe df = map record_of (filter included df) \<and>
   parse_dataframe
     [[Cell (ascii ''1''), Cell [28450], Cell (ascii ''han''), Cell (ascii ''Chinese'')],
      [Cell (ascii ''2''), Cell [], Cell [], Cell []],
      [Cell (ascii ''idx''), Cell header_label, Cell [], Cell []]]
   = [\<lparr>hanja = [28450], reading = ascii ''han'', meaning = ascii ''Chinese''\<rparr>]"
  by (simp add: parse_dataframe_eq included_def record_of_def cell_str_def header_label_def ascii_Cons)

subsection \<open>C5\<close>

text \<open>
  Claim C5. With the default \<^verbatim>\<open>gid\<close>, \<^verbatim>\<open>get_google_sheet_csv_url\<close> returns
  \<^verbatim>\<open>https://docs.google.com/spreadsheets/d/<id>/export?format=csv&gid=0\<close> whenever one
  of the two patterns matches in the URL, where \<^verbatim>\<open><id>\<close> is a non-empty run of
  characters of the class that follows an occurrence of \<^verbatim>\<open>/spreadsheets/d/\<close> or of
  \<^verbatim>\<open>id=\<close> in the URL; it returns \<^verbatim>\<open>None\<close> when neither pattern matches. On the
  example URL the result holds \<^verbatim>\<open>ABC123\<close> and \<^verbatim>\<open>format=csv\<close>.
\<close>

theorem csv_url_when_pattern_matches:
  "(pattern_occurs (ascii ''/spreadsheets/d/'') url \<or> pattern_occurs (ascii ''id='') url \<longrightarrow>
      (\<exists>sheet_id pre post.
         sheet_id \<noteq> [] \<and> (\<forall>c\<in>set sheet_id. sheet_id_char c) \<and>
         (url = pre @ ascii ''/spreadsheets/d/'' @ sheet_id @ post \<or>
          url = pre @ ascii ''id='' @ sheet_id @ post) \<and>
         get_google_sheet_csv_url url (ascii ''0'') =
           Some (ascii ''https://docs.google.com/spreadsheets/d/'' @ sheet_id @
                 ascii ''/export?format=csv&gid=0''))) \<and>
   (\<not> pattern_occurs (ascii ''/spreadsheets/d/'') url \<and> \<not> pattern_occurs (ascii ''id='') url \<longrightarrow>
      get_google_sheet_csv_url url (ascii ''0'') = None) \<and>
   get_google_sheet_csv_url (ascii ''https://docs.google.com/spreadsheets/d/ABC123/edit'') (ascii ''0'') =
     Some (ascii ''https://docs.google.com/spreadsheets/d/ABC123/export?format=csv&gid=0'')"
proof -
  let ?p1 = "ascii ''/spreadsheets/d/''" and ?p2 = "ascii ''id=''"
  have found: "\<exists>sheet_id pre post.
         sheet_id \<noteq> [] \<and> (\<forall>c\<in>set sheet_id. sheet_id_char c) \<and>
         (url = pre @ ?p1 @ sheet_id @ post \<or> url = pre @ ?p2 @ sheet_id @ post) \<and>
         get_google_sheet_csv_url url (ascii ''0'') =
           Some (ascii ''https://docs.google.com/spreadsheets/d/'' @ sheet_id @
                 ascii ''/export?format=csv&gid=0'')"
    if "pattern_occurs ?p1 url \<or> pattern_occurs ?p2 url"
  proof (cases "re_search ?p1 url")
    case (Some g)
    from re_search_Some [OF this] Some show ?thesis
      by (auto simp add: csv_url_default_gid extract_google_sheet_id_eq)
  next
    case None
    from re_search_None [OF this] that have "pattern_occurs ?p2 url"
      by simp
    from re_search_occurs [OF this] obtain g where g: "re_search ?p2 url = Some g" ..
    from re_search_Some [OF g] None g show ?thesis
      by (auto simp add: csv_url_default_gid extract_google_sheet_id_eq)
  qed
  have absent: "get_google_sheet_csv_url url (ascii ''0'') = None"
    if "\<not> pattern_occurs ?p1 url \<and> \<not> pattern_occurs ?p2 url"
  proof -
    have "re_search ?p1 url = None"
      using that re_search_Some_occurs [of ?p1 url] by (cases "re_search ?p1 url") auto
    moreover have "re_search ?p2 url = None"
      using that re_search_Some_occurs [of ?p2 url] by (cases "re_search ?p2 url") auto
    ultimately show ?thesis
      by (simp add: csv_url_default_gid extract_google_sheet_id_eq)
  qed
  have example: "get_google_sheet_csv_url
      (ascii ''https://docs.google.com/spreadsheets/d/ABC123/edit'') (ascii ''0'') =
     Some (ascii ''https://docs.google.com/spreadsheets/d/ABC123/export?format=csv&gid=0'')"
    by code_simp
  from found absent example show ?thesis
    by blast
qed

text \<open>
  Witness for C5: a URL of each form, and a URL in which neither pattern matches.
\<close>

theorem csv_url_witness:
  "pattern_occurs (ascii ''/spreadsheets/d/'')
     (ascii ''https://docs.google.com/spreadsheets/d/ABC123/edit'') \<and>
   get_google_sheet_csv_url (ascii ''https://docs.google.com/spreadsheets/d/ABC123/edit'') (ascii ''0'') =
     Some (ascii ''https://docs.google.com/spreadsheets/d/ABC123/export?format=csv&gid=0'') \<and>
   pattern_occurs (ascii ''id='') (ascii ''https://drive.google.com/open?id=ABC-123_x&usp=sharing'') \<and>
   get_google_sheet_csv_url (ascii ''https://drive.google.com/open?id=ABC-123_x&usp=sharing'') (ascii ''0'') =
     Some (ascii ''https://docs.google.com/spreadsheets/d/ABC-123_x/export?format=csv&gid=0'') \<and>
   get_google_sheet_csv_url (ascii ''https://example.com/sheet/d/ABC123'') (ascii ''0'') = None"
proof -
  let ?u1 = "ascii ''https://docs.google.com/spreadsheets/d/ABC123/edit''"
  let ?u2 = "ascii ''https://drive.google.com/open?id=ABC-123_x&usp=sharing''"
  let ?u3 = "ascii ''https://example.com/sheet/d/ABC123''"
  have "re_search (ascii ''/spreadsheets/d/'') ?u1 = Some (ascii ''ABC123'')"
    by code_simp
  then have m1: "pattern_occurs (ascii ''/spreadsheets/d/'') ?u1"
    by (rule re_search_Some_occurs)
  have "re_search (ascii ''id='') ?u2 = Some (ascii ''ABC-123_x'')"
    by code_simp
  then have m2: "pattern_occurs (ascii ''id='') ?u2"
    by (rule re_search_Some_occurs)
  have v2: "get_google_sheet_csv_url ?u2 (ascii ''0'') =
     Some (ascii ''https://docs.google.com/spreadsheets/d/ABC-123_x/export?format=csv&gid=0'')"
    by code_simp
  have "re_search (ascii ''/spreadsheets/d/'') ?u3 = None" "re_search (ascii ''id='') ?u3 = None"
    by code_simp+
  then have m3: "\<not> pattern_occurs (ascii ''/spreadsheets/d/'') ?u3 \<and> \<not> pattern_occurs (ascii ''id='') ?u3"
    by (simp add: re_search_None)
  from csv_url_when_pattern_matches [of ?u1] csv_url_when_pattern_matches [of ?u3] m1 m2 m3 v2
  show ?thesis
    by blast
qed

subsection \<open>C6\<close>

text \<open>
  Counterexample to C6 as stated. The index file holds a valid index of one entry.
  \<^verbatim>\<open>save_cache_index\<close> is interrupted after it has opened the file for writing: the
  file no longer holds the prior index, and \<^verbatim>\<open>load_cache_index\<close> now returns the
  empty index.
\<close>

theorem save_cache_index_not_atomic_counterexample:
  "snd (load_cache_index env0 fs_saved) = old_index \<and>
   snd (interrupted_save env0 new_index fs_saved) = Inr () \<and>
   fst (interrupted_save env0 new_index fs_saved) (CACHE_INDEX_FILE env0) = Some (File Unparsable) \<and>
   fs_saved (CACHE_INDEX_FILE env0) = Some (File (Serialized old_index)) \<and>
   snd (load_cache_index env0 (fst (interrupted_save env0 new_index fs_saved))) = empty_index \<and>
   empty_index \<noteq> old_index"
  by (simp add: interrupted_save_eq snd_load_cache_index fs_saved_def open_write_def
      ensure_cache_dir_apply old_index_def empty_index_def)

text \<open>
  Claim C6, amended. \<^verbatim>\<open>save_cache_index\<close> overwrites the index file in place. When
  it returns, \<^verbatim>\<open>load_cache_index\<close> returns the index saved, and no path other than
  the cache directory and the index file has changed: there is no temporary file and no
  rename. When it is interrupted between opening the file and the end of the dump, the
  index file is unparsable and \<^verbatim>\<open>load_cache_index\<close> returns the empty index.
\<close>

theorem save_cache_index_in_place:
  "(save_cache_index env index fs = (fs', Inr u) \<longrightarrow>
      snd (load_cache_index env fs') = index \<and>
      (\<forall>p. p \<noteq> CACHE_DIR env \<and> p \<noteq> CACHE_INDEX_FILE env \<longrightarrow> fs' p = fs p)) \<and>
   (interrupted_save env index fs = (fs'', Inr u) \<longrightarrow>
      fs'' (CACHE_INDEX_FILE env) = Some (File Unparsable) \<and>
      snd (load_cache_index env fs'') = empty_index \<and>
      (\<forall>p. p \<noteq> CACHE_DIR env \<and> p \<noteq> CACHE_INDEX_FILE env \<longrightarrow> fs'' p = fs p))"
proof -
  have complete: "snd (load_cache_index env fs') = index \<and>
      (\<forall>p. p \<noteq> CACHE_DIR env \<and> p \<noteq> CACHE_INDEX_FILE env \<longrightarrow> fs' p = fs p)"
    if save: "save_cache_index env index fs = (fs', Inr u)"
  proof -
    from save have "fs' (CACHE_INDEX_FILE env) = Some (File (Serialized index))"
      by (rule save_cache_index_index)
    then show ?thesis
      using save_cache_index_apply [OF save]
      by (simp add: snd_load_cache_index ensure_cache_dir_apply)
  qed
  have partial: "fs'' (CACHE_INDEX_FILE env) = Some (File Unparsable) \<and>
      snd (load_cache_index env fs'') = empty_index \<and>
      (\<forall>p. p \<noteq> CACHE_DIR env \<and> p \<noteq> CACHE_INDEX_FILE env \<longrightarrow> fs'' p = fs p)"
    if "interrupted_save env index fs = (fs'', Inr u)"
  proof -
    from that have "fs'' = (ensure_cache_dir env fs)(CACHE_INDEX_FILE env \<mapsto> File Unparsable)"
      by (auto simp add: interrupted_save_eq split: sum.splits dest: open_write_Inr)
    then show ?thesis
      by (simp add: snd_load_cache_index ensure_cache_dir_apply)
  qed
  from complete partial show ?thesis
    by blast
qed

text \<open>Witness for C6 as amended: a save over an index of one entry, complete and interrupted.\<close>

theorem save_cache_index_in_place_witness:
  "snd (save_cache_index env0 new_index fs_saved) = Inr () \<and>
   snd (load_cache_index env0 (fst (save_cache_index env0 new_index fs_saved))) = new_index \<and>
   fst (save_cache_index env0 new_index fs_saved) (cache_filepath env0 now0 (ascii ''words'')) =
     fs_saved (cache_filepath env0 now0 (ascii ''words'')) \<and>
   snd (interrupted_save env0 new_index fs_saved) = Inr () \<and>
   snd (load_cache_index env0 (fst (interrupted_save env0 new_index fs_saved))) = empty_index"
proof -
  have save: "save_cache_index env0 new_index fs_saved =
      (fst (save_cache_index env0 new_index fs_saved), Inr ())"
    by (simp add: run_save_cache_index fs_saved_def open_write_def ensure_cache_dir_apply)
  have part: "interrupted_save env0 new_index fs_saved =
      (fst (interrupted_save env0 new_index fs_saved), Inr ())"
    by (simp add: interrupted_save_eq fs_saved_def open_write_def ensure_cache_dir_apply)
  have other: "cache_filepath env0 now0 (ascii ''words'') \<noteq> CACHE_DIR env0 \<and>
      cache_filepath env0 now0 (ascii ''words'') \<noteq> CACHE_INDEX_FILE env0"
    by simp
  from save_cache_index_in_place [of env0 new_index fs_saved
      "fst (save_cache_index env0 new_index fs_saved)" "()"
      "fst (interrupted_save env0 new_index fs_saved)"] save part other
  show ?thesis
    by (metis snd_conv)
qed

subsection \<open>C7\<close>

text \<open>
  Claim C7. \<^verbatim>\<open>load_cache_index\<close> returns the empty index when the index file is
  absent, when it cannot be read, and when \<^verbatim>\<open>json.load\<close> rejects its content. The
  function has no exceptional result: every exception of the \<^verbatim>\<open>try\<close> block is
  turned into the empty index.
\<close>

theorem load_cache_index_empty_when_absent_or_unparsable:
  assumes "fs (CACHE_INDEX_FILE env) = None \<or>
           (\<exists>e. open_read (CACHE_INDEX_FILE env) fs = Inl e) \<or>
           (\<exists>c e. open_read (CACHE_INDEX_FILE env) fs = Inr c \<and> json_load c = Inl e)"
  shows "snd (load_cache_index env fs) = empty_index"
  using assms
  by (auto simp add: snd_load_cache_index open_read_def json_load_def
      split: option.splits node.splits contents.splits)

text \<open>Witness for C7: no index file, and an index file that does not parse.\<close>

theorem load_cache_index_empty_witness:
  "snd (load_cache_index env0 Map.empty) = empty_index \<and>
   snd (load_cache_index env0 [CACHE_INDEX_FILE env0 \<mapsto> File Unparsable]) = empty_index"
proof -
  have a: "Map.empty (CACHE_INDEX_FILE env0) = None" by simp
  have b: "open_read (CACHE_INDEX_FILE env0) [CACHE_INDEX_FILE env0 \<mapsto> File Unparsable] = Inr Unparsable \<and>
           json_load Unparsable = Inl JSONDecodeError"
    by (simp add: open_read_def json_load_def)
  show ?thesis
    using load_cache_index_empty_when_absent_or_unparsable [of Map.empty env0]
      load_cache_index_empty_when_absent_or_unparsable [of "[CACHE_INDEX_FILE env0 \<mapsto> File Unparsable]" env0]
      a b by blast
qed

subsection \<open>C8\<close>

text \<open>
  Claim C8. When nothing exists at the path of the cache file,
  \<^verbatim>\<open>load_from_cache\<close> returns \<^verbatim>\<open>None\<close> and raises nothing.
\<close>

theorem load_from_cache_absent:
  assumes "\<not> os_path_exists fs (os_path_join (CACHE_DIR env) filename)"
  shows "load_from_cache env filename fs = Inr None"
  using assms by (simp add: load_from_cache_def)

text \<open>Witness for C8: a file name looked up in the empty file system.\<close>

theorem load_from_cache_absent_witness:
  "\<not> os_path_exists Map.empty (os_path_join (CACHE_DIR env0) (ascii ''a_20240101_000000.json'')) \<and>
   load_from_cache env0 (ascii ''a_20240101_000000.json'') Map.empty = Inr None"
  using load_from_cache_absent [of Map.empty env0 "ascii ''a_20240101_000000.json''"]
  by (simp add: os_path_exists_def)

subsection \<open>C9\<close>

text \<open>
  Counterexample to C9 as stated. The source of the one entry of \<open>fs_one\<close> is
  loaded again within the same second, with other data. The call returns; the backing
  file of the replaced entry is the very file that the call writes, and its content has
  changed.
\<close>

theorem replaced_file_overwritten_counterexample:
  "index_files env0 fs_one = [entry_of env0 (same_name_call 0)] \<and>
   entry_source (entry_of env0 (same_name_call 0)) = JStr (source_path_arg reload_at_once) \<and>
   entry_path env0 (entry_of env0 (same_name_call 0)) =
     Some (ascii ''/home/u/.hanja_memorizer/words_20240102_030405.json'') \<and>
   snd (call_on reload_at_once fs_one) =
     Inr (ascii ''/home/u/.hanja_memorizer/words_20240102_030405.json'') \<and>
   fs_one (ascii ''/home/u/.hanja_memorizer/words_20240102_030405.json'') =
     Some (File (Serialized (json_of_data data0))) \<and>
   fst (call_on reload_at_once fs_one) (ascii ''/home/u/.hanja_memorizer/words_20240102_030405.json'') =
     Some (File (Serialized (json_of_data data1))) \<and>
   json_of_data data1 \<noteq> json_of_data data0"
proof -
  let ?p = "cache_filepath env0 now0 (ascii ''words'')"
  let ?sp = "source_path_arg reload_at_once"
  from add_to_cache_succeeds [OF fs_one_facts(2), of now0 "ascii ''words''" "ascii ''local''" ?sp data1]
  obtain fs' where run: "add_to_cache env0 now0 (ascii ''words'') (ascii ''local'') ?sp data1 fs_one =
      (fs', Inr ?p)"
    by blast
  then have call: "call_on reload_at_once fs_one = (fs', Inr ?p)"
    by (simp add: call_on_def reload_at_once_def same_name_call_def)
  have "evicted env0 now0 (ascii ''words'') (ascii ''local'') ?sp data1 fs_one = []"
    by (rule evicted_Nil) (simp add: fs_one_facts(3))
  with written_file_after_add [OF run] have "fs' ?p = Some (File (Serialized (json_of_data data1)))"
    by simp
  moreover have "json_of_data data1 \<noteq> json_of_data data0"
    by (simp add: json_of_data_def data0_def data1_def)
  moreover have "?sp = source_path_arg (same_name_call 0)"
    by (simp add: reload_at_once_def)
  ultimately show ?thesis
    using call fs_one_facts(3,4) by (simp add: words_path [symmetric])
qed

text \<open>
  Claim C9, amended. Whatever the outcome of \<^verbatim>\<open>add_to_cache\<close>, a path that existed
  before and exists no longer is the path of the backing file of an entry evicted by
  the cap. The backing file of an entry replaced for its source identifier is left as
  it was, unless it is a file that the call writes (the new cache file or the index
  file) or also the backing file of an evicted entry.
\<close>

theorem deletes_only_evicted_files:
  assumes run: "add_to_cache env now name st sp data fs = (fs', r)"
  shows "(\<forall>p. os_path_exists fs p \<and> \<not> os_path_exists fs' p \<longrightarrow>
            Some p \<in> entry_path env ` set (evicted env now name st sp data fs)) \<and>
         (\<forall>f\<in>set (index_files env fs). \<forall>p.
            entry_source f = JStr sp \<and> entry_path env f = Some p \<and> os_path_exists fs p \<and>
            p \<noteq> cache_filepath env now name \<and> p \<noteq> CACHE_INDEX_FILE env \<and>
            Some p \<notin> entry_path env ` set (evicted env now name st sp data fs) \<longrightarrow>
            fs' p = fs p)"
  using add_to_cache_deletes [OF run] add_to_cache_frame [OF run]
  by (auto simp add: os_path_exists_def)

text \<open>
  Witness for C9 as amended: the eviction from \<open>fs_full\<close> deletes the file of the
  evicted entry, and a reload a minute later leaves the file of the replaced entry of
  \<open>fs_one\<close> as it was.
\<close>

theorem deletes_only_evicted_witness:
  "os_path_exists fs_full (cache_filepath env0 now0 (name_arg (example_call 0))) \<and>
   \<not> os_path_exists (fst (call_on (example_call 20) fs_full))
     (cache_filepath env0 now0 (name_arg (example_call 0))) \<and>
   Some (cache_filepath env0 now0 (name_arg (example_call 0))) \<in>
     entry_path env0 ` set (evicted env0 now0 (name_arg (example_call 20)) (ascii ''local'')
       (source_path_arg (example_call 20)) data0 fs_full) \<and>
   entry_of env0 (same_name_call 0) \<in> set (index_files env0 fs_one) \<and>
   entry_source (entry_of env0 (same_name_call 0)) = JStr (source_path_arg reload_later) \<and>
   entry_path env0 (entry_of env0 (same_name_call 0)) = Some (cache_filepath env0 now0 (ascii ''words'')) \<and>
   os_path_exists fs_one (cache_filepath env0 now0 (ascii ''words'')) \<and>
   cache_filepath env0 now0 (ascii ''words'') \<noteq> cache_filepath env0 now1 (ascii ''words'') \<and>
   cache_filepath env0 now0 (ascii ''words'') \<noteq> CACHE_INDEX_FILE env0 \<and>
   Some (cache_filepath env0 now0 (ascii ''words'')) \<notin>
     entry_path env0 ` set (evicted env0 now1 (ascii ''words'') (ascii ''local'')
       (source_path_arg reload_later) data1 fs_one) \<and>
   fst (call_on reload_later fs_one) (cache_filepath env0 now0 (ascii ''words'')) =
     Some (File (Serialized (json_of_data data0)))"
proof -
  let ?name = "name_arg (example_call 20)"
  let ?sp = "source_path_arg (example_call 20)"
  let ?q = "cache_filepath env0 now0 (name_arg (example_call 0))"
  let ?p = "cache_filepath env0 now0 (ascii ''words'')"
  from add_to_cache_succeeds [OF fs_full_facts(2), of now0 ?name "ascii ''local''" ?sp data0]
  obtain fs' where run: "add_to_cache env0 now0 ?name (ascii ''local'') ?sp data0 fs_full =
      (fs', Inr (cache_filepath env0 now0 ?name))"
    by blast
  then have call: "call_on (example_call 20) fs_full = (fs', Inr (cache_filepath env0 now0 ?name))"
    by (simp add: call_on_def example_call_def)
  have "entry_of env0 (example_call 0) \<in> set (evicted env0 now0 ?name (ascii ''local'') ?sp data0 fs_full)"
    by (simp add: evicted_from_fs_full)
  from evicted_files_gone [OF run this] have gone: "\<not> os_path_exists fs' ?q"
    by (simp add: os_path_exists_def)
  from deletes_only_evicted_files [OF run] fs_full_facts(4) gone
  have first: "Some ?q \<in> entry_path env0 ` set (evicted env0 now0 ?name (ascii ''local'') ?sp data0 fs_full)"
    by blast
  let ?sq = "source_path_arg reload_later"
  from add_to_cache_succeeds [OF fs_one_facts(2), of now1 "ascii ''words''" "ascii ''local''" ?sq data1]
  obtain fs'' where run2: "add_to_cache env0 now1 (ascii ''words'') (ascii ''local'') ?sq data1 fs_one =
      (fs'', Inr (cache_filepath env0 now1 (ascii ''words'')))"
    by blast
  then have call2: "call_on reload_later fs_one = (fs'', Inr (cache_filepath env0 now1 (ascii ''words'')))"
    by (simp add: call_on_def reload_later_def same_name_call_def)
  have h1: "entry_of env0 (same_name_call 0) \<in> set (index_files env0 fs_one)"
    by (simp add: fs_one_facts(3))
  have h2: "entry_source (entry_of env0 (same_name_call 0)) = JStr ?sq"
    by (simp add: reload_later_def)
  have h3: "entry_path env0 (entry_of env0 (same_name_call 0)) = Some ?p"
    by simp
  have h4: "os_path_exists fs_one ?p"
    by (simp add: os_path_exists_def fs_one_facts(4))
  have h5: "?p \<noteq> cache_filepath env0 now1 (ascii ''words'')"
    using words_path_later by simp
  have h6: "?p \<noteq> CACHE_INDEX_FILE env0"
    by simp
  have "evicted env0 now1 (ascii ''words'') (ascii ''local'') ?sq data1 fs_one = []"
    by (rule evicted_Nil) (simp add: fs_one_facts(3))
  then have h7: "Some ?p \<notin> entry_path env0 ` set (evicted env0 now1 (ascii ''words'') (ascii ''local'') ?sq data1 fs_one)"
    by simp
  from deletes_only_evicted_files [OF run2] h1 h2 h3 h4 h5 h6 h7 have "fs'' ?p = fs_one ?p"
    by blast
  with fs_one_facts(4) have second: "fs'' ?p = Some (File (Serialized (json_of_data data0)))"
    by simp
  from fs_full_facts(4) gone first call h1 h2 h3 h4 h5 h6 h7 second call2 show ?thesis
    by simp
qed

subsection \<open>C10\<close>

text \<open>
  Claim C10. No record returned by \<^verbatim>\<open>parse_dataframe\<close> has \<^verbatim>\<open>"nan"\<close> as its
  character.
\<close>

theorem parse_dataframe_never_nan:
  "\<forall>r\<in>set (parse_dataframe df). hanja r \<noteq> ascii ''nan''"
  by (auto simp add: parse_dataframe_eq included_def record_of_def)

text \<open>Witness for C10: of two rows, the one with the character \<^verbatim>\<open>"nan"\<close> is dropped.\<close>

theorem parse_dataframe_never_nan_witness:
  "parse_dataframe [[Cell (ascii ''1''), Cell (ascii ''nan''), Cell (ascii ''x''), Cell (ascii ''y'')],
                    [Cell (ascii ''2''), Cell (ascii ''han''), Cell (ascii ''x''), Cell (ascii ''y'')]]
     = [\<lparr>hanja = ascii ''han'', reading = ascii ''x'', meaning = ascii ''y''\<rparr>] \<and>
   hanja (hd (parse_dataframe
       [[Cell (ascii ''1''), Cell (ascii ''nan''), Cell (ascii ''x''), Cell (ascii ''y'')],
        [Cell (ascii ''2''), Cell (ascii ''han''), Cell (ascii ''x''), Cell (ascii ''y'')]]))
     \<noteq> ascii ''nan''"
proof -
  let ?df = "[[Cell (ascii ''1''), Cell (ascii ''nan''), Cell (ascii ''x''), Cell (ascii ''y'')],
              [Cell (ascii ''2''), Cell (ascii ''han''), Cell (ascii ''x''), Cell (ascii ''y'')]]"
  have result: "parse_dataframe ?df =
      [\<lparr>hanja = ascii ''han'', reading = ascii ''x'', meaning = ascii ''y''\<rparr>]"
    by (simp add: parse_dataframe_def extract_row_def iloc_def cell_str_def header_label_def
        ascii_Cons Let_def)
  then have "hd (parse_dataframe ?df) \<in> set (parse_dataframe ?df)"
    by simp
  with parse_dataframe_never_nan [of ?df] have "hanja (hd (parse_dataframe ?df)) \<noteq> ascii ''nan''"
    by blast
  with result show ?thesis
    by blast
qed

end
